theory Spec2Isabelle
  imports Main "HOL-Library.Multiset"
begin

section \<open>Snapshots, time and errors\<close>

text \<open>
  \<^verbatim>\<open>type snap struct { path, subvolPath string; created time.Time }\<close> (main.go).
  An instant is an integer number of nanoseconds counted from Go's zero \<^verbatim>\<open>time.Time\<close>,
  so that the zero value \<^verbatim>\<open>var prevCreated time.Time\<close> is \<open>0\<close>. Instants are unbounded;
  a \<^verbatim>\<open>time.Duration\<close> is an \<^verbatim>\<open>int64\<close> count of nanoseconds.
\<close>

record snap =
  path :: string
  subvolPath :: string
  created :: int

definition minDuration :: int where
  "minDuration = - (2 ^ 63)"

definition maxDuration :: int where
  "maxDuration = 2 ^ 63 - 1"

text \<open>
  \<^verbatim>\<open>t.Sub(u)\<close>: the difference of two instants, saturated to the range of
  \<^verbatim>\<open>time.Duration\<close> as the Go library documents.
\<close>

definition time_Sub :: "int \<Rightarrow> int \<Rightarrow> int" where
  "time_Sub t u =
     (let d = t - u in
      if d < minDuration then minDuration
      else if maxDuration < d then maxDuration
      else d)"

definition Minute :: int where
  "Minute = 60 * 1000000000"

definition Hour :: int where
  "Hour = 60 * Minute"

text \<open>
  An \<^verbatim>\<open>error\<close> returned and a \<^verbatim>\<open>panic\<close> raised are both values of one type; the
  constructors whose names start with \<open>Panic\<close> are the panics.
\<close>

datatype error =
    PanicNilDereference
  | PanicMakeSliceCap
  | PanicBucketSize
  | PanicFIXME
  | IntervalMissing
  | SizeMissing
  | SubvolumeMissing
  | BucketError nat nat error
  | ProfileError string error
  | OpenError string
  | DecodeError string
  | NotABackupProfile
  | ScanError string
  | TransferError string
  | CannotBackup string error

section \<open>Configuration (config.go)\<close>

text \<open>
  A Go pointer field is an \<open>option\<close>: \<open>None\<close> is \<^verbatim>\<open>nil\<close>. The field \<open>Backup\<close> is the
  one \<^verbatim>\<open>app.backup\<close> reads as \<^verbatim>\<open>p.Backup\<close>. The profile table is a Go map; it is
  given here as the list of its entries in the order in which \<^verbatim>\<open>range\<close> happens to
  visit them, which Go leaves unspecified.
\<close>

record bucketJSON =
  Interval :: "int option"
  Size :: "int option"

record profileJSON =
  Subvolume :: "string option"
  Storage :: "string option"
  Backup :: "string option"
  Buckets :: "bucketJSON option list"

record configJSON =
  Profiles :: "(string \<times> profileJSON option) list"

text \<open>\<^verbatim>\<open>func (b *bucketJSON) validate() error\<close>; a \<^verbatim>\<open>nil\<close> receiver panics at \<^verbatim>\<open>b.Interval\<close>.\<close>

definition bucketJSON_validate :: "bucketJSON option \<Rightarrow> error option" where
  "bucketJSON_validate b =
     (case b of
        None \<Rightarrow> Some PanicNilDereference
      | Some bj \<Rightarrow>
          if Interval bj = None then Some IntervalMissing
          else if Size bj = None then Some SizeMissing
          else None)"

text \<open>The loop over \<^verbatim>\<open>p.Buckets\<close> of \<^verbatim>\<open>profileJSON.validate\<close>; \<open>i\<close> is the loop index, \<open>l\<close> the length.\<close>

fun validate_buckets :: "nat \<Rightarrow> nat \<Rightarrow> bucketJSON option list \<Rightarrow> error option" where
  "validate_buckets i l [] = None"
| "validate_buckets i l (b # bs) =
     (case bucketJSON_validate b of
        Some PanicNilDereference \<Rightarrow> Some PanicNilDereference
      | Some e \<Rightarrow> Some (BucketError (i + 1) l e)
      | None \<Rightarrow> validate_buckets (i + 1) l bs)"

definition profileJSON_validate :: "profileJSON option \<Rightarrow> error option" where
  "profileJSON_validate p =
     (case p of
        None \<Rightarrow> Some PanicNilDereference
      | Some pj \<Rightarrow>
          if Subvolume pj = None then Some SubvolumeMissing
          else validate_buckets 0 (length (Buckets pj)) (Buckets pj))"

definition is_panic :: "error \<Rightarrow> bool" where
  "is_panic e = (e = PanicNilDereference \<or> e = PanicMakeSliceCap \<or> e = PanicBucketSize \<or> e = PanicFIXME)"

text \<open>\<^verbatim>\<open>func (c *configJSON) validate() error\<close>, over the entries in iteration order.\<close>

fun validate_profiles :: "(string \<times> profileJSON option) list \<Rightarrow> error option" where
  "validate_profiles [] = None"
| "validate_profiles ((name, p) # ps) =
     (case profileJSON_validate p of
        Some e \<Rightarrow> (if is_panic e then Some e else Some (ProfileError name e))
      | None \<Rightarrow> validate_profiles ps)"

definition configJSON_validate :: "configJSON \<Rightarrow> error option" where
  "configJSON_validate c = validate_profiles (Profiles c)"

text \<open>
  The file system that \<^verbatim>\<open>os.Open\<close> sees: the working directory and the readable files by
  absolute path. A relative name is resolved against the working directory.
\<close>

record filesystem =
  cwd :: string
  files :: "string \<rightharpoonup> string"

definition os_Open :: "filesystem \<Rightarrow> string \<Rightarrow> error + string" where
  "os_Open fs name =
     (let full = (if name \<noteq> [] \<and> hd name = CHR ''/'' then name else cwd fs @ ''/'' @ name) in
      case files fs full of
        None \<Rightarrow> Inl (OpenError name)
      | Some contents \<Rightarrow> Inr contents)"

text \<open>
  \<^verbatim>\<open>func loadConfig(filename string) (*configJSON, error)\<close>. The JSON decoder of the Go
  library is the parameter \<open>decode\<close>.
\<close>

definition loadConfig ::
  "(string \<Rightarrow> error + configJSON) \<Rightarrow> filesystem \<Rightarrow> string \<Rightarrow> error + configJSON" where
  "loadConfig decode fs filename =
     (case os_Open fs ''config.json'' of
        Inl err \<Rightarrow> Inl err
      | Inr f \<Rightarrow>
          (case decode f of
             Inl err \<Rightarrow> Inl err
           | Inr cfg \<Rightarrow>
               (case configJSON_validate cfg of
                  Some err \<Rightarrow> Inl err
                | None \<Rightarrow> Inr cfg)))"

section \<open>Buckets and the cascade\<close>

text \<open>
  \<^verbatim>\<open>type bucket struct { interval time.Duration; snaps []*snap }\<close>. The slice \<^verbatim>\<open>snaps\<close>
  is its backing array \<open>snaps_array\<close>, whose length is \<^verbatim>\<open>cap(b.snaps)\<close> and whose \<^verbatim>\<open>nil\<close>
  slots are \<open>None\<close>, together with its length \<open>snaps_len\<close> (\<^verbatim>\<open>len(b.snaps)\<close>). A cascade
  is a slice of pointers to buckets that \<^verbatim>\<open>addBucket\<close> allocates one by one, so no two
  entries share a bucket, and a function that mutates the buckets returns the new
  cascade.
\<close>

record bucket =
  interval :: int
  snaps_array :: "snap option list"
  snaps_len :: nat

type_synonym cascade = "bucket list"

definition newBucket :: "int \<Rightarrow> int \<Rightarrow> error + bucket" where
  "newBucket iv sz =
     (if sz \<le> 0 then Inl PanicBucketSize
      else Inr \<lparr>interval = iv, snaps_array = replicate (nat sz) None, snaps_len = 0\<rparr>)"

definition newCascade :: cascade where
  "newCascade = []"

text \<open>
  \<^verbatim>\<open>func (c *cascade) addBucket(b *bucketJSON)\<close>. It reads \<^verbatim>\<open>*b.Interval\<close>, then
  \<^verbatim>\<open>*b.Size\<close>, and \<^verbatim>\<open>make([]*snap, 0, n)\<close> panics when \<open>n\<close> is negative. The limit of
  the allocator on large capacities is not modelled.
\<close>

definition addBucket :: "cascade \<Rightarrow> bucketJSON option \<Rightarrow> error + cascade" where
  "addBucket c b =
     (case b of
        None \<Rightarrow> Inl PanicNilDereference
      | Some bj \<Rightarrow>
          (case Interval bj of
             None \<Rightarrow> Inl PanicNilDereference
           | Some iv \<Rightarrow>
               (case Size bj of
                  None \<Rightarrow> Inl PanicNilDereference
                | Some n \<Rightarrow>
                    if n < 0 then Inl PanicMakeSliceCap
                    else Inr (c @ [\<lparr>interval = iv, snaps_array = replicate (nat n) None,
                                    snaps_len = 0\<rparr>]))))"

text \<open>
  The loop \<^verbatim>\<open>for _, b := range profile.Buckets { a.cascade.addBucket(b) }\<close> of
  \<^verbatim>\<open>app.run\<close>; a panic ends it.
\<close>

fun addBuckets :: "cascade \<Rightarrow> bucketJSON option list \<Rightarrow> error + cascade" where
  "addBuckets c [] = Inr c"
| "addBuckets c (b # bs) =
     (case addBucket c b of
        Inl e \<Rightarrow> Inl e
      | Inr c' \<Rightarrow> addBuckets c' bs)"

section \<open>Classification: \<^verbatim>\<open>cascade.insert\<close>\<close>

text \<open>
  The state of the two nested loops of \<^verbatim>\<open>insert\<close>. From the second bucket on, the
  slices \<^verbatim>\<open>in\<close> and \<^verbatim>\<open>overflow\<close> are views of one backing array (\<^verbatim>\<open>in = overflow\<close>
  followed by \<^verbatim>\<open>overflow = overflow[:0]\<close>), so an \<^verbatim>\<open>append\<close> to \<^verbatim>\<open>overflow\<close> writes into
  the array that \<^verbatim>\<open>range in\<close> is reading. The state therefore holds both arrays and the
  flag \<open>shared\<close>, which says that they are the same array:
  \<^item> \<open>in_array\<close>, \<open>in_len\<close>: the array and length of the slice that \<^verbatim>\<open>range in\<close> took;
  \<^item> \<open>overflow_array\<close>, \<open>overflow_len\<close>: the backing array of \<^verbatim>\<open>overflow\<close> (its length is
    the capacity) and \<^verbatim>\<open>len(overflow)\<close>;
  \<^item> \<open>bkt\<close>, \<open>prevCreated\<close>, \<open>insertAt\<close>, \<open>out\<close>: the variables of these names.
\<close>

record insert_state =
  bkt :: bucket
  prevCreated :: int
  insertAt :: nat
  out :: "snap list"
  in_array :: "snap list"
  in_len :: nat
  overflow_array :: "snap list"
  overflow_len :: nat
  shared :: bool

text \<open>
  \<^verbatim>\<open>overflow = append(overflow, t)\<close>. Below the capacity the element is written in place,
  which a shared \<open>in_array\<close> sees; at the capacity \<^verbatim>\<open>append\<close> moves \<^verbatim>\<open>overflow\<close> to a new
  array and the sharing ends. The spare capacity that Go may give the new array is not
  modelled: slots beyond the length are never read.
\<close>

definition append_overflow :: "snap \<Rightarrow> insert_state \<Rightarrow> insert_state" where
  "append_overflow t st =
     (if overflow_len st < length (overflow_array st) then
        st\<lparr>overflow_array := (overflow_array st)[overflow_len st := t],
           in_array := (if shared st then (in_array st)[overflow_len st := t] else in_array st),
           overflow_len := overflow_len st + 1\<rparr>
      else
        st\<lparr>overflow_array := take (overflow_len st) (overflow_array st) @ [t],
           overflow_len := overflow_len st + 1,
           shared := False\<rparr>)"

text \<open>The body of the inner loop at index \<open>i\<close>, with \<^verbatim>\<open>s := in[i]\<close> read first.\<close>

definition insert_iter :: "nat \<Rightarrow> insert_state \<Rightarrow> insert_state" where
  "insert_iter i st =
     (let s = in_array st ! i;
          b = bkt st;
          d = time_Sub (created s) (prevCreated st)
      in
        if (0 < i \<and> d < interval b) \<or> length (snaps_array b) = 0 then
          st\<lparr>out := out st @ [s]\<rparr>
        else
          let st1 = (case snaps_array b ! insertAt st of
                       Some t \<Rightarrow> append_overflow t st
                     | None \<Rightarrow> st)
          in st1\<lparr>bkt := b\<lparr>snaps_array := (snaps_array b)[insertAt st := Some s],
                           snaps_len := insertAt st + 1\<rparr>,
                   insertAt := (insertAt st + 1) mod length (snaps_array b),
                   prevCreated := created s\<rparr>)"

text \<open>
  The outer loop \<^verbatim>\<open>for _, b := range c\<close>: the inner loop runs over the indices of
  \<^verbatim>\<open>in\<close>, then \<^verbatim>\<open>in = overflow; overflow = overflow[:0]\<close>. It returns the buckets as the
  loop leaves them and the final state.
\<close>

fun insert_buckets :: "cascade \<Rightarrow> insert_state \<Rightarrow> cascade \<times> insert_state" where
  "insert_buckets [] st = ([], st)"
| "insert_buckets (b # c) st =
     (let st1 = fold insert_iter [0 ..< in_len st]
                  (st\<lparr>bkt := b, prevCreated := 0, insertAt := 0\<rparr>);
          st2 = st1\<lparr>in_array := overflow_array st1, in_len := overflow_len st1,
                    overflow_len := 0, shared := True\<rparr>;
          (c', fin) = insert_buckets c st2
      in (bkt st1 # c', fin))"

text \<open>
  The loops of \<^verbatim>\<open>insert\<close> on an input that is already in the order the sort left it,
  and the final \<^verbatim>\<open>out = append(out, in...)\<close>. The bucket stored in the initial state is
  never read: the outer loop replaces it before the first iteration.
\<close>

definition insert_loop :: "cascade \<Rightarrow> snap list \<Rightarrow> cascade \<times> snap list" where
  "insert_loop c xs =
     (let (c', fin) = insert_buckets c
            \<lparr>bkt = \<lparr>interval = 0, snaps_array = [], snaps_len = 0\<rparr>,
             prevCreated = 0, insertAt = 0, out = [],
             in_array = xs, in_len = length xs,
             overflow_array = [], overflow_len = 0, shared = False\<rparr>
      in (c', out fin @ take (in_len fin) (in_array fin)))"

text \<open>
  \<^verbatim>\<open>func (c cascade) insert(in []*snap) (out []*snap)\<close>. \<^verbatim>\<open>sort.Slice\<close> orders the
  input by \<open>created\<close>; it is not stable, and the order it gives to snapshots of equal
  \<open>created\<close> is not specified. The model sorts stably; the properties below that are
  proved of \<open>insert_loop\<close> hold for every ascending order of the input.
\<close>

definition cascade_insert :: "cascade \<Rightarrow> snap list \<Rightarrow> cascade \<times> snap list" where
  "cascade_insert c ins = insert_loop c (sort_key created ins)"

text \<open>
  \<^verbatim>\<open>func (c cascade) reset()\<close>: it clears the slots below \<^verbatim>\<open>len(b.snaps)\<close> and cuts
  the slice to length zero.
\<close>

definition reset_bucket :: "bucket \<Rightarrow> bucket" where
  "reset_bucket b =
     b\<lparr>snaps_array := replicate (snaps_len b) None @ drop (snaps_len b) (snaps_array b),
       snaps_len := 0\<rparr>"

definition reset :: "cascade \<Rightarrow> cascade" where
  "reset c = map reset_bucket c"

text \<open>
  The snapshots a bucket holds in its ring, and those the whole cascade holds: the
  occupants of all slots of the backing array, also the slots beyond \<^verbatim>\<open>len(b.snaps)\<close>,
  which \<^verbatim>\<open>insert\<close> sets to \<open>insertAt + 1\<close> at every write and so cuts back when the ring
  wraps.
\<close>

primrec somes :: "'a option list \<Rightarrow> 'a list" where
  "somes [] = []"
| "somes (x # xs) = (case x of None \<Rightarrow> somes xs | Some a \<Rightarrow> a # somes xs)"

definition occupants :: "bucket \<Rightarrow> snap list" where
  "occupants b = somes (snaps_array b)"

definition kept :: "cascade \<Rightarrow> snap list" where
  "kept c = concat (map occupants c)"

section \<open>Backup (main.go)\<close>

text \<open>
  The loop of \<^verbatim>\<open>backupSingle\<close> that builds the arguments of \<^verbatim>\<open>btrfs send\<close>: it walks
  the bases in slice order, remembers in \<^verbatim>\<open>parentPath\<close> the last one created before \<open>s\<close>
  and appends \<^verbatim>\<open>-c\<close> and the base's path for every one of them.
\<close>

definition send_loop :: "snap \<Rightarrow> snap list \<Rightarrow> string \<times> string list" where
  "send_loop s bases =
     fold (\<lambda>hs (parentPath, sendArgs).
             ((if created hs < created s then subvolPath hs else parentPath),
              sendArgs @ [''-c'', subvolPath hs]))
          bases ([], [''send''])"

definition parentPath :: "snap \<Rightarrow> snap list \<Rightarrow> string" where
  "parentPath s bases = fst (send_loop s bases)"

definition sendArgs :: "snap \<Rightarrow> snap list \<Rightarrow> string list" where
  "sendArgs s bases =
     (let (parentPath, args) = send_loop s bases;
          args1 = (if parentPath \<noteq> [] then args @ [''-p'', parentPath] else args)
      in args1 @ [subvolPath s])"

text \<open>
  \<^verbatim>\<open>backupSingle\<close>. The staging directory, the two \<^verbatim>\<open>btrfs\<close> processes joined by a pipe
  and the final rename are outside the model: their joint outcome is the parameter
  \<open>pipeline\<close>, which is given the number of transfers already attempted in this run and
  the arguments of \<^verbatim>\<open>btrfs send\<close>, and answers \<open>None\<close> for success.
\<close>

definition backupSingle ::
  "(nat \<Rightarrow> string list \<Rightarrow> error option) \<Rightarrow> nat \<Rightarrow> snap \<Rightarrow> snap list \<Rightarrow> error option" where
  "backupSingle pipeline k s bases = pipeline k (sendArgs s bases)"

text \<open>The call \<^verbatim>\<open>a.backupSingle(srcProfile, p, s, haveS)\<close> as the run's log records it.\<close>

record transfer =
  t_snap :: snap
  t_bases :: "snap list"

text \<open>
  \<^verbatim>\<open>srcM\<close> and \<^verbatim>\<open>dstM\<close>: the snapshots by \<open>created\<close>, a later one replacing an earlier
  one of the same key.
\<close>

definition snapsByCreated :: "snap list \<Rightarrow> (int \<rightharpoonup> snap)" where
  "snapsByCreated xs = fold (\<lambda>s m. m(created s \<mapsto> s)) xs Map.empty"

text \<open>
  \<^verbatim>\<open>needS\<close> and \<^verbatim>\<open>haveS\<close> after their sorts. Go collects the values of the maps
  \<^verbatim>\<open>need\<close> and \<^verbatim>\<open>have\<close> in an unspecified order and sorts them by \<open>created\<close>; the keys
  of a map are distinct, so the result is the values in ascending order of the keys.
\<close>

definition needS :: "snap list \<Rightarrow> snap list \<Rightarrow> snap list" where
  "needS src dst =
     [the (snapsByCreated src t). t \<leftarrow> sort (remdups (map created src)),
        snapsByCreated dst t = None]"

definition haveS :: "snap list \<Rightarrow> snap list \<Rightarrow> snap list" where
  "haveS src dst =
     [the (snapsByCreated src t). t \<leftarrow> sort (remdups (map created src)),
        snapsByCreated dst t \<noteq> None]"

text \<open>
  The loop \<^verbatim>\<open>for _, s := range needS\<close> of \<^verbatim>\<open>backup\<close>; \<open>unwanted\<close> lists the keys of
  the map of that name, \<open>bases\<close> is the slice \<^verbatim>\<open>haveS\<close>, and \<open>log\<close> collects the calls of
  \<^verbatim>\<open>backupSingle\<close> in order. The first failing transfer ends the run.
\<close>

fun backup_loop ::
  "(nat \<Rightarrow> string list \<Rightarrow> error option) \<Rightarrow> int list \<Rightarrow> snap list \<Rightarrow> snap list \<Rightarrow>
   transfer list \<Rightarrow> error option \<times> transfer list" where
  "backup_loop pipeline unwanted [] bases log = (None, log)"
| "backup_loop pipeline unwanted (s # rest) bases log =
     (if created s \<in> set unwanted then backup_loop pipeline unwanted rest bases log
      else
        (case backupSingle pipeline (length log) s bases of
           Some err \<Rightarrow>
             (Some (CannotBackup (path s) err), log @ [\<lparr>t_snap = s, t_bases = bases\<rparr>])
         | None \<Rightarrow>
             backup_loop pipeline unwanted rest (bases @ [s])
               (log @ [\<lparr>t_snap = s, t_bases = bases\<rparr>])))"

text \<open>
  \<^verbatim>\<open>backup\<close> from the point where both directories have been scanned: \<open>c\<close> is
  \<^verbatim>\<open>a.cascade\<close>. It returns the error, the transfers attempted and the cascade after
  \<^verbatim>\<open>a.cascade.reset()\<close>.
\<close>

definition backup_snaps ::
  "(nat \<Rightarrow> string list \<Rightarrow> error option) \<Rightarrow> cascade \<Rightarrow> snap list \<Rightarrow> snap list \<Rightarrow>
   error option \<times> transfer list \<times> cascade" where
  "backup_snaps pipeline c src dst =
     (let wouldHave = dst @ needS src dst;
          (c1, evicted) = cascade_insert c wouldHave;
          unwanted = map created evicted;
          c2 = reset c1;
          (err, log) = backup_loop pipeline unwanted (needS src dst) (haveS src dst) []
      in (err, log, c2))"

text \<open>
  \<^verbatim>\<open>func (a *app) backup(p *profileJSON) error\<close>. The scan of a storage directory,
  \<^verbatim>\<open>findSnaps\<close>, reads the file system and is a parameter.
\<close>

definition backup ::
  "(string \<Rightarrow> error + snap list) \<Rightarrow> (nat \<Rightarrow> string list \<Rightarrow> error option) \<Rightarrow>
   configJSON \<Rightarrow> cascade \<Rightarrow> profileJSON \<Rightarrow> error option \<times> transfer list \<times> cascade" where
  "backup findSnaps pipeline cfg c p =
     (case Backup p of
        None \<Rightarrow> (Some NotABackupProfile, [], c)
      | Some name \<Rightarrow>
          (case map_of (Profiles cfg) name of
             None \<Rightarrow> (Some PanicFIXME, [], c)
           | Some None \<Rightarrow> (Some PanicFIXME, [], c)
           | Some (Some srcProfile) \<Rightarrow>
               (case Storage srcProfile of
                  None \<Rightarrow> (Some PanicNilDereference, [], c)
                | Some srcDir \<Rightarrow>
                    (case findSnaps srcDir of
                       Inl err \<Rightarrow> (Some err, [], c)
                     | Inr src \<Rightarrow>
                         (case Storage p of
                            None \<Rightarrow> (Some PanicNilDereference, [], c)
                          | Some dstDir \<Rightarrow>
                              (case findSnaps dstDir of
                                 Inl err \<Rightarrow> (Some err, [], c)
                               | Inr dst \<Rightarrow> backup_snaps pipeline c src dst))))))"

text \<open>
  The snapshots the loop of \<^verbatim>\<open>backup\<close> does not skip, in the order of the loop: those
  of \<^verbatim>\<open>needS\<close> whose \<open>created\<close> is not a key of \<^verbatim>\<open>unwanted\<close>, the map filled with the
  snapshots that \<^verbatim>\<open>a.cascade.insert(wouldHave)\<close> returns.
\<close>

definition toSend :: "cascade \<Rightarrow> snap list \<Rightarrow> snap list \<Rightarrow> snap list" where
  "toSend c src dst =
     filter (\<lambda>s. created s \<notin> set (map created (snd (cascade_insert c (dst @ needS src dst)))))
       (needS src dst)"

text \<open>
  The snapshot of a storage directory of the destination, as \<^verbatim>\<open>findSnaps\<close> gives it
  under \<^verbatim>\<open>/mnt/backup\<close>.
\<close>

definition backup_at :: "string \<Rightarrow> int \<Rightarrow> snap" where
  "backup_at name m =
     \<lparr>path = ''/mnt/backup/'' @ name,
      subvolPath = ''/mnt/backup/'' @ name @ ''/snapshot'',
      created = m * Minute\<rparr>"

section \<open>The classification as a function on lists\<close>

text \<open>
  What one pass over a bucket does, without the arrays of the loop: which snapshots the
  guard lets through and which it turns away, and what writing the former into the ring
  displaces. \<open>z\<close> says that the bucket has capacity zero. These functions are proved
  below to compute what \<open>insert_loop\<close> computes.
\<close>

fun accepted :: "nat \<Rightarrow> int \<Rightarrow> bool \<Rightarrow> int \<Rightarrow> snap list \<Rightarrow> snap list" where
  "accepted i iv z prev [] = []"
| "accepted i iv z prev (s # xs) =
     (if (0 < i \<and> time_Sub (created s) prev < iv) \<or> z then accepted (Suc i) iv z prev xs
      else s # accepted (Suc i) iv z (created s) xs)"

fun rejected :: "nat \<Rightarrow> int \<Rightarrow> bool \<Rightarrow> int \<Rightarrow> snap list \<Rightarrow> snap list" where
  "rejected i iv z prev [] = []"
| "rejected i iv z prev (s # xs) =
     (if (0 < i \<and> time_Sub (created s) prev < iv) \<or> z then s # rejected (Suc i) iv z prev xs
      else rejected (Suc i) iv z (created s) xs)"

fun puts :: "bucket \<Rightarrow> nat \<Rightarrow> snap list \<Rightarrow> bucket \<times> nat \<times> snap list" where
  "puts b at [] = (b, at, [])"
| "puts b at (s # A) =
     (let (b', at', ovf) =
            puts (b\<lparr>snaps_array := (snaps_array b)[at := Some s], snaps_len := at + 1\<rparr>)
                 ((at + 1) mod length (snaps_array b)) A
      in (b', at', somes [snaps_array b ! at] @ ovf))"

definition bucket_pass :: "bucket \<Rightarrow> snap list \<Rightarrow> bucket \<times> snap list \<times> snap list" where
  "bucket_pass b xs =
     (let z = (length (snaps_array b) = 0);
          (b', at', ovf) = puts b 0 (accepted 0 (interval b) z 0 xs)
      in (b', rejected 0 (interval b) z 0 xs, ovf))"

fun insert_pure :: "cascade \<Rightarrow> snap list \<Rightarrow> cascade \<times> snap list" where
  "insert_pure [] xs = ([], xs)"
| "insert_pure (b # c) xs =
     (let (b', rej, ovf) = bucket_pass b xs;
          (c', out') = insert_pure c ovf
      in (b' # c', rej @ out'))"

text \<open>
  The invariant of the inner loop at index \<open>i\<close>: \<^verbatim>\<open>overflow\<close> is within its capacity, and
  where it shares its array with \<^verbatim>\<open>in\<close> it is no longer than the part of \<^verbatim>\<open>in\<close> already
  read.
\<close>

definition aliasing_ok :: "nat \<Rightarrow> insert_state \<Rightarrow> bool" where
  "aliasing_ok i st \<longleftrightarrow>
     overflow_len st \<le> length (overflow_array st) \<and>
     (shared st \<longrightarrow> overflow_array st = in_array st \<and> overflow_len st \<le> i)"

text \<open>The ring read from the next write position on: the oldest slot first.\<close>

definition ring_order :: "'a list \<Rightarrow> nat \<Rightarrow> 'a list" where
  "ring_order arr at = drop at arr @ take at arr"

text \<open>A cascade as \<^verbatim>\<open>addBucket\<close> leaves it: every ring empty.\<close>

definition fresh :: "cascade \<Rightarrow> bool" where
  "fresh c \<longleftrightarrow> (\<forall>b \<in> set c. snaps_array b = replicate (length (snaps_array b)) None)"

section \<open>Fixtures\<close>

text \<open>
  A snapshot of the given directory name taken the given number of minutes after the
  zero instant, with the paths \<^verbatim>\<open>findSnaps\<close> gives it under the storage directory
  \<^verbatim>\<open>/snap/root\<close>.
\<close>

definition snap_at :: "string \<Rightarrow> int \<Rightarrow> snap" where
  "snap_at name m =
     \<lparr>path = ''/snap/root/'' @ name,
      subvolPath = ''/snap/root/'' @ name @ ''/snapshot'',
      created = m * Minute\<rparr>"

text \<open>The tier definition \<^verbatim>\<open>{"Interval": ..., "Size": ...}\<close> as the decoder delivers it.\<close>

definition tier :: "int \<Rightarrow> int \<Rightarrow> bucketJSON option" where
  "tier iv n = Some \<lparr>Interval = Some iv, Size = Some n\<rparr>"

text \<open>
  What the tier list asks of the cascade \<open>c'\<close> that a classification leaves: one bucket
  for each tier, holding in its ring no more snapshots than the tier's size, any two of
  them created at least the tier's interval apart.
\<close>

definition tiers_respected :: "bucketJSON option list \<Rightarrow> cascade \<Rightarrow> bool" where
  "tiers_respected tiers c' \<longleftrightarrow>
     length c' = length tiers \<and>
     (\<forall>k < length tiers. \<exists>iv n. tiers ! k = tier iv n \<and>
        length (occupants (c' ! k)) \<le> nat n \<and>
        (\<forall>i j. i < j \<and> j < length (occupants (c' ! k)) \<longrightarrow>
           iv \<le> \<bar>created (occupants (c' ! k) ! i) - created (occupants (c' ! k) ! j)\<bar>))"

text \<open>
  An outcome of the transfers of a run in which the second transfer attempted fails on
  the receiving side and every other one succeeds.
\<close>

definition second_fails :: "nat \<Rightarrow> string list \<Rightarrow> error option" where
  "second_fails k args = (if k = 1 then Some (TransferError ''btrfs receive'') else None)"

section \<open>The loops of the classification compute the list functions\<close>

lemma append_overflow_props:
  assumes "aliasing_ok i st" "i < length (in_array st)"
  shows "aliasing_ok (Suc i) (append_overflow t st)"
    and "length (in_array (append_overflow t st)) = length (in_array st)"
    and "drop (Suc i) (in_array (append_overflow t st)) = drop (Suc i) (in_array st)"
    and "overflow_len (append_overflow t st) = overflow_len st + 1"
    and "take (overflow_len st + 1) (overflow_array (append_overflow t st))
           = take (overflow_len st) (overflow_array st) @ [t]"
    and "bkt (append_overflow t st) = bkt st"
    and "out (append_overflow t st) = out st"
    and "prevCreated (append_overflow t st) = prevCreated st"
    and "insertAt (append_overflow t st) = insertAt st"
  using assms
  by (auto simp: aliasing_ok_def append_overflow_def take_update_cancel
      take_Suc_conv_app_nth)

lemma insert_iter_reject:
  assumes "(0 < i \<and> time_Sub (created (in_array st ! i)) (prevCreated st) < interval (bkt st))
           \<or> length (snaps_array (bkt st)) = 0"
  shows "insert_iter i st = st\<lparr>out := out st @ [in_array st ! i]\<rparr>"
  using assms by (simp add: insert_iter_def Let_def)

lemma insert_iter_accept:
  assumes "\<not> ((0 < i \<and> time_Sub (created (in_array st ! i)) (prevCreated st) < interval (bkt st))
           \<or> length (snaps_array (bkt st)) = 0)"
    and "aliasing_ok i st" "i < length (in_array st)"
  defines "s \<equiv> in_array st ! i"
  defines "st1 \<equiv> insert_iter i st"
  shows "bkt st1 = (bkt st)\<lparr>snaps_array := (snaps_array (bkt st))[insertAt st := Some s],
                            snaps_len := insertAt st + 1\<rparr>"
    and "insertAt st1 = (insertAt st + 1) mod length (snaps_array (bkt st))"
    and "prevCreated st1 = created s"
    and "out st1 = out st"
    and "aliasing_ok (Suc i) st1"
    and "length (in_array st1) = length (in_array st)"
    and "drop (Suc i) (in_array st1) = drop (Suc i) (in_array st)"
    and "overflow_len st1 = overflow_len st + length (somes [snaps_array (bkt st) ! insertAt st])"
    and "take (overflow_len st1) (overflow_array st1)
           = take (overflow_len st) (overflow_array st) @ somes [snaps_array (bkt st) ! insertAt st]"
proof -
  show "bkt st1 = (bkt st)\<lparr>snaps_array := (snaps_array (bkt st))[insertAt st := Some s],
                            snaps_len := insertAt st + 1\<rparr>"
    and "insertAt st1 = (insertAt st + 1) mod length (snaps_array (bkt st))"
    and "prevCreated st1 = created s"
    using assms(1) unfolding st1_def s_def
    by (auto simp: insert_iter_def Let_def append_overflow_props[OF assms(2,3)] split: option.splits)
  show "out st1 = out st" "aliasing_ok (Suc i) st1" "length (in_array st1) = length (in_array st)"
    "drop (Suc i) (in_array st1) = drop (Suc i) (in_array st)"
    "overflow_len st1 = overflow_len st + length (somes [snaps_array (bkt st) ! insertAt st])"
    "take (overflow_len st1) (overflow_array st1)
           = take (overflow_len st) (overflow_array st) @ somes [snaps_array (bkt st) ! insertAt st]"
    using assms(1,2) append_overflow_props[OF assms(2,3)] unfolding st1_def s_def
    by (auto simp: insert_iter_def Let_def aliasing_ok_def split: option.splits)
qed

lemma inner_loop:
  assumes "i \<le> n" "n \<le> length (in_array st)" "aliasing_ok i st"
    and "puts (bkt st) (insertAt st)
           (accepted i (interval (bkt st)) (length (snaps_array (bkt st)) = 0) (prevCreated st)
              (drop i (take n (in_array st)))) = (b', at', ovf)"
    and "st' = fold insert_iter [i ..< n] st"
  shows "bkt st' = b' \<and>
         out st' = out st @ rejected i (interval (bkt st)) (length (snaps_array (bkt st)) = 0)
                              (prevCreated st) (drop i (take n (in_array st))) \<and>
         overflow_len st' = overflow_len st + length ovf \<and>
         take (overflow_len st') (overflow_array st') = take (overflow_len st) (overflow_array st) @ ovf \<and>
         overflow_len st' \<le> length (overflow_array st')"
  using assms
proof (induction "n - i" arbitrary: i st b' at' ovf)
  case 0
  then show ?case by (simp add: aliasing_ok_def)
next
  case (Suc k)
  then have lt: "i < n" and len: "i < length (in_array st)" by simp_all
  define s where "s = in_array st ! i"
  define st1 where "st1 = insert_iter i st"
  have xs: "drop i (take n (in_array st)) = s # drop (Suc i) (take n (in_array st))"
    using lt Suc.prems(2) Cons_nth_drop_Suc[of i "take n (in_array st)"] by (simp add: s_def)
  have fold: "st' = fold insert_iter [Suc i ..< n] st1"
    using Suc.prems(5) lt by (simp add: upt_conv_Cons st1_def)
  have k: "k = n - Suc i" using Suc.hyps(2) by simp
  show ?case
  proof (cases "(0 < i \<and> time_Sub (created s) (prevCreated st) < interval (bkt st))
           \<or> length (snaps_array (bkt st)) = 0")
    case True
    then have st1: "st1 = st\<lparr>out := out st @ [s]\<rparr>"
      unfolding st1_def s_def by (rule insert_iter_reject)
    have ok: "aliasing_ok (Suc i) st1"
      using Suc.prems(3) by (auto simp: st1 aliasing_ok_def)
    have p: "puts (bkt st1) (insertAt st1)
           (accepted (Suc i) (interval (bkt st1)) (length (snaps_array (bkt st1)) = 0) (prevCreated st1)
              (drop (Suc i) (take n (in_array st1)))) = (b', at', ovf)"
      using Suc.prems(4) True by (simp add: xs st1)
    have n1: "n \<le> length (in_array st1)" using Suc.prems(2) by (simp add: st1)
    have ih: "bkt st' = b'"
      "out st' = out st1 @ rejected (Suc i) (interval (bkt st1)) (length (snaps_array (bkt st1)) = 0)
                              (prevCreated st1) (drop (Suc i) (take n (in_array st1)))"
      "overflow_len st' = overflow_len st1 + length ovf"
      "take (overflow_len st') (overflow_array st') = take (overflow_len st1) (overflow_array st1) @ ovf"
      "overflow_len st' \<le> length (overflow_array st')"
      using Suc.hyps(1)[OF k Suc_leI[OF lt] n1 ok p fold] by blast+
    have r: "rejected i (interval (bkt st)) (length (snaps_array (bkt st)) = 0) (prevCreated st)
               (s # drop (Suc i) (take n (in_array st)))
             = s # rejected (Suc i) (interval (bkt st)) (length (snaps_array (bkt st)) = 0)
                     (prevCreated st) (drop (Suc i) (take n (in_array st)))"
      using True by auto
    show ?thesis
    proof (intro conjI)
      show "bkt st' = b'" by (rule ih(1))
      show "out st' = out st @ rejected i (interval (bkt st)) (length (snaps_array (bkt st)) = 0)
                              (prevCreated st) (drop i (take n (in_array st)))"
        unfolding xs r using ih(2) by (simp add: st1)
      show "overflow_len st' = overflow_len st + length ovf"
        using ih(3) by (simp add: st1)
      show "take (overflow_len st') (overflow_array st') = take (overflow_len st) (overflow_array st) @ ovf"
        using ih(4) by (simp add: st1)
      show "overflow_len st' \<le> length (overflow_array st')" by (rule ih(5))
    qed
  next
    case False
    define d where "d = somes [snaps_array (bkt st) ! insertAt st]"
    note acc = insert_iter_accept[OF False[unfolded s_def] Suc.prems(3) len,
        folded st1_def s_def d_def]
    have dr: "drop (Suc i) (take n (in_array st1)) = drop (Suc i) (take n (in_array st))"
      using acc(7) by (simp add: drop_take)
    have iv: "interval (bkt st1) = interval (bkt st)"
      and cap: "length (snaps_array (bkt st1)) = length (snaps_array (bkt st))"
      by (simp_all add: acc(1))
    obtain b2 at2 ovf2 where p2: "puts (bkt st1) (insertAt st1)
           (accepted (Suc i) (interval (bkt st1)) (length (snaps_array (bkt st1)) = 0) (prevCreated st1)
              (drop (Suc i) (take n (in_array st1)))) = (b2, at2, ovf2)"
      by (metis prod_cases3)
    have a: "accepted i (interval (bkt st)) (length (snaps_array (bkt st)) = 0) (prevCreated st)
               (s # drop (Suc i) (take n (in_array st)))
             = s # accepted (Suc i) (interval (bkt st)) (length (snaps_array (bkt st)) = 0)
                     (created s) (drop (Suc i) (take n (in_array st)))"
      using False by auto
    have r: "rejected i (interval (bkt st)) (length (snaps_array (bkt st)) = 0) (prevCreated st)
               (s # drop (Suc i) (take n (in_array st)))
             = rejected (Suc i) (interval (bkt st)) (length (snaps_array (bkt st)) = 0)
                     (created s) (drop (Suc i) (take n (in_array st)))"
      using False by auto
    have eq: "b' = b2" "ovf = d @ ovf2"
      using Suc.prems(4) p2 unfolding xs a dr iv cap acc(2,3) d_def
      by (simp_all add: acc(1))
    have n1: "n \<le> length (in_array st1)" using Suc.prems(2) acc(6) by simp
    have ih: "bkt st' = b2"
      "out st' = out st1 @ rejected (Suc i) (interval (bkt st1)) (length (snaps_array (bkt st1)) = 0)
                              (prevCreated st1) (drop (Suc i) (take n (in_array st1)))"
      "overflow_len st' = overflow_len st1 + length ovf2"
      "take (overflow_len st') (overflow_array st') = take (overflow_len st1) (overflow_array st1) @ ovf2"
      "overflow_len st' \<le> length (overflow_array st')"
      using Suc.hyps(1)[OF k Suc_leI[OF lt] n1 acc(5) p2 fold] by blast+
    show ?thesis
    proof (intro conjI)
      show "bkt st' = b'" by (simp add: ih(1) eq(1))
      show "out st' = out st @ rejected i (interval (bkt st)) (length (snaps_array (bkt st)) = 0)
                              (prevCreated st) (drop i (take n (in_array st)))"
        unfolding xs r using ih(2) by (simp add: acc(3,4) iv cap dr)
      show "overflow_len st' = overflow_len st + length ovf"
        using ih(3) by (simp add: acc(8) eq(2))
      show "take (overflow_len st') (overflow_array st') = take (overflow_len st) (overflow_array st) @ ovf"
        using ih(4) by (simp add: acc(9) eq(2))
      show "overflow_len st' \<le> length (overflow_array st')" by (rule ih(5))
    qed
  qed
qed

lemma insert_buckets_pure:
  assumes "in_len st \<le> length (in_array st)" "overflow_len st = 0"
    and "shared st \<longrightarrow> overflow_array st = in_array st"
    and "insert_buckets c st = (c', fin)"
    and "insert_pure c (take (in_len st) (in_array st)) = (c'', ev)"
  shows "c' = c'' \<and> out fin @ take (in_len fin) (in_array fin) = out st @ ev"
  using assms
proof (induction c arbitrary: st c' fin c'' ev)
  case Nil
  then show ?case by simp
next
  case (Cons b c)
  define st0 where "st0 = st\<lparr>bkt := b, prevCreated := 0, insertAt := 0\<rparr>"
  define st1 where "st1 = fold insert_iter [0 ..< in_len st] st0"
  define st2 where "st2 = st1\<lparr>in_array := overflow_array st1, in_len := overflow_len st1,
                    overflow_len := 0, shared := True\<rparr>"
  define xs where "xs = take (in_len st) (in_array st)"
  obtain b' at' ovf where p: "puts b 0 (accepted 0 (interval b) (length (snaps_array b) = 0) 0 xs)
      = (b', at', ovf)"
    by (metis prod_cases3)
  obtain c1 fin1 where r1: "insert_buckets c st2 = (c1, fin1)" by fastforce
  obtain c2 ev2 where r2: "insert_pure c ovf = (c2, ev2)" by fastforce
  have ok: "aliasing_ok 0 st0"
    using Cons.prems(2,3) by (simp add: aliasing_ok_def st0_def)
  have p0: "puts (bkt st0) (insertAt st0)
           (accepted 0 (interval (bkt st0)) (length (snaps_array (bkt st0)) = 0) (prevCreated st0)
              (drop 0 (take (in_len st) (in_array st0)))) = (b', at', ovf)"
    using p by (simp add: st0_def xs_def)
  have n0: "in_len st \<le> length (in_array st0)" using Cons.prems(1) by (simp add: st0_def)
  have il: "bkt st1 = b'"
    "out st1 = out st0 @ rejected 0 (interval (bkt st0)) (length (snaps_array (bkt st0)) = 0)
                              (prevCreated st0) (drop 0 (take (in_len st) (in_array st0)))"
    "overflow_len st1 = overflow_len st0 + length ovf"
    "take (overflow_len st1) (overflow_array st1) = take (overflow_len st0) (overflow_array st0) @ ovf"
    "overflow_len st1 \<le> length (overflow_array st1)"
    using inner_loop[OF le0 n0 ok p0 st1_def] by blast+
  have tk: "take (in_len st2) (in_array st2) = ovf"
    using il(4) Cons.prems(2) by (simp add: st2_def st0_def)
  have r2': "insert_pure c (take (in_len st2) (in_array st2)) = (c2, ev2)"
    unfolding tk by (rule r2)
  have ih: "c1 = c2 \<and> out fin1 @ take (in_len fin1) (in_array fin1) = out st2 @ ev2"
    by (rule Cons.IH[OF _ _ _ r1 r2']) (simp_all add: st2_def il(5))
  have L: "insert_buckets (b # c) st = (bkt st1 # c1, fin1)"
    using r1 by (simp add: Let_def st0_def[symmetric] st1_def[symmetric] st2_def[symmetric])
  have R: "insert_pure (b # c) xs
       = (b' # c2, rejected 0 (interval b) (length (snaps_array b) = 0) 0 xs @ ev2)"
    using p r2 by (simp add: bucket_pass_def Let_def)
  from L R Cons.prems(4,5) ih il(1,2) show ?case
    by (simp add: xs_def st2_def st0_def)
qed

lemma insert_loop_pure: "insert_loop c xs = insert_pure c xs"
proof -
  define st where "st = \<lparr>bkt = \<lparr>interval = 0, snaps_array = [], snaps_len = 0\<rparr>,
             prevCreated = 0, insertAt = 0, out = [],
             in_array = xs, in_len = length xs,
             overflow_array = [], overflow_len = 0, shared = False\<rparr>"
  obtain c' fin where r1: "insert_buckets c st = (c', fin)" by fastforce
  obtain c'' ev where r2: "insert_pure c xs = (c'', ev)" by fastforce
  have "c' = c'' \<and> out fin @ take (in_len fin) (in_array fin) = out st @ ev"
    by (rule insert_buckets_pure[OF _ _ _ r1]) (simp_all add: st_def r2)
  then show ?thesis
    using r1 r2 by (simp add: insert_loop_def st_def[symmetric]) (simp add: st_def)
qed

section \<open>Rings as queues\<close>

lemma somes_append: "somes (xs @ ys) = somes xs @ somes ys"
  by (induction xs) (auto split: option.splits)

lemma somes_replicate_None: "somes (replicate n None) = []"
  by (induction n) auto

lemma somes_map_Some: "somes (map Some xs) = xs"
  by (induction xs) auto

lemma length_somes_le: "length (somes xs) \<le> length xs"
  by (induction xs) (auto split: option.splits)

lemma mset_somes_ring_order: "mset (somes (ring_order arr at)) = mset (somes arr)"
proof -
  have "mset (somes (ring_order arr at)) = mset (somes (take at arr @ drop at arr))"
    unfolding ring_order_def somes_append by simp
  then show ?thesis by simp
qed

lemma ring_order_fresh: "ring_order (replicate n None) 0 = replicate n None"
  by (simp add: ring_order_def)

text \<open>Writing at the next position drops the oldest slot and appends the new value.\<close>

lemma ring_order_put:
  assumes "at < length arr"
  shows "ring_order (arr[at := v]) ((at + 1) mod length arr) = tl (ring_order arr at) @ [v]"
    and "hd (ring_order arr at) = arr ! at"
    and "ring_order arr at \<noteq> []"
proof -
  have d: "drop at arr = arr ! at # drop (Suc at) arr"
    using assms by (simp add: Cons_nth_drop_Suc)
  show "hd (ring_order arr at) = arr ! at" "ring_order arr at \<noteq> []"
    by (simp_all add: ring_order_def d)
  show "ring_order (arr[at := v]) ((at + 1) mod length arr) = tl (ring_order arr at) @ [v]"
  proof (cases "Suc at < length arr")
    case True
    then have "take (Suc at) (arr[at := v]) = take at arr @ [v]"
      by (simp add: take_Suc_conv_app_nth)
    with True show ?thesis by (simp add: ring_order_def d)
  next
    case False
    with assms have e: "Suc at = length arr" by simp
    then have "drop (Suc at) arr = []" by simp
    moreover have "arr[at := v] = take at arr @ [v]"
      using e assms by (simp add: upd_conv_take_nth_drop)
    ultimately show ?thesis using e by (simp add: ring_order_def d)
  qed
qed

lemma puts_queue:
  assumes "at < length (snaps_array b)" "puts b at A = (b', at', ovf)"
  shows "interval b' = interval b \<and>
         length (snaps_array b') = length (snaps_array b) \<and>
         at' < length (snaps_array b) \<and>
         ring_order (snaps_array b') at'
           = drop (length A) (ring_order (snaps_array b) at @ map Some A) \<and>
         ovf = somes (take (length A) (ring_order (snaps_array b) at @ map Some A))"
  using assms
proof (induction A arbitrary: b at b' at' ovf)
  case Nil
  then show ?case by simp
next
  case (Cons s A)
  define b1 where "b1 = b\<lparr>snaps_array := (snaps_array b)[at := Some s], snaps_len := at + 1\<rparr>"
  define at1 where "at1 = (at + 1) mod length (snaps_array b)"
  define q where "q = ring_order (snaps_array b) at"
  obtain b2 at2 ovf2 where p: "puts b1 at1 A = (b2, at2, ovf2)" by (metis prod_cases3)
  have "0 < length (snaps_array b)" by (rule le_less_trans[OF le0 Cons.prems(1)])
  then have at1: "at1 < length (snaps_array b1)"
    by (simp add: at1_def b1_def)
  note ih = Cons.IH[OF at1 p]
  have q1: "ring_order (snaps_array b1) at1 = tl q @ [Some s]"
    using ring_order_put(1)[OF Cons.prems(1)] by (simp add: b1_def at1_def q_def)
  have q: "q = snaps_array b ! at # tl q"
    using ring_order_put(2,3)[OF Cons.prems(1)] unfolding q_def by (metis list.collapse)
  have res: "b' = b2" "at' = at2" "ovf = somes [snaps_array b ! at] @ ovf2"
    using Cons.prems(2) p[unfolded b1_def at1_def] by simp_all
  have l1: "drop (length (s # A)) (q @ map Some (s # A)) = drop (length A) ((tl q @ [Some s]) @ map Some A)"
    by (subst q) simp
  have l2: "somes (take (length (s # A)) (q @ map Some (s # A)))
       = somes [snaps_array b ! at] @ somes (take (length A) ((tl q @ [Some s]) @ map Some A))"
    by (subst q) (simp split: option.splits)
  have ih': "interval b2 = interval b1" "length (snaps_array b2) = length (snaps_array b1)"
    "at2 < length (snaps_array b1)"
    "ring_order (snaps_array b2) at2 = drop (length A) (ring_order (snaps_array b1) at1 @ map Some A)"
    "ovf2 = somes (take (length A) (ring_order (snaps_array b1) at1 @ map Some A))"
    using ih by blast+
  show ?case
  proof (intro conjI)
    show "interval b' = interval b" using ih'(1) by (simp add: res b1_def)
    show "length (snaps_array b') = length (snaps_array b)" using ih'(2) by (simp add: res b1_def)
    show "at' < length (snaps_array b)" using ih'(3) by (simp add: res b1_def)
    show "ring_order (snaps_array b') at'
           = drop (length (s # A)) (ring_order (snaps_array b) at @ map Some (s # A))"
      unfolding res q_def[symmetric] l1 q1[symmetric] by (rule ih'(4))
    show "ovf = somes (take (length (s # A)) (ring_order (snaps_array b) at @ map Some (s # A)))"
      unfolding res q_def[symmetric] l2 q1[symmetric] by (simp only: ih'(5))
  qed
qed

lemma puts_mset:
  assumes "at < length (snaps_array b)" "puts b at A = (b', at', ovf)"
  shows "mset (occupants b') + mset ovf = mset (occupants b) + mset A"
proof -
  define l where "l = ring_order (snaps_array b) at @ map Some A"
  note pq = puts_queue[OF assms, folded l_def]
  have "mset (occupants b') + mset ovf
      = mset (somes (drop (length A) l)) + mset (somes (take (length A) l))"
    using pq mset_somes_ring_order[of "snaps_array b'" at'] by (simp add: occupants_def)
  also have "\<dots> = mset (somes (take (length A) l @ drop (length A) l))"
    unfolding somes_append by simp
  also have "\<dots> = mset (somes l)" by simp
  also have "\<dots> = mset (occupants b) + mset A"
    by (simp add: l_def somes_append somes_map_Some mset_somes_ring_order occupants_def)
  finally show ?thesis .
qed

lemma mset_accepted_rejected:
  "mset (accepted i iv z prev xs) + mset (rejected i iv z prev xs) = mset xs"
  by (induction xs arbitrary: i prev) auto

lemma accepted_zero_cap: "accepted i iv True prev xs = []"
  by (induction xs arbitrary: i) auto

lemma rejected_zero_cap: "rejected i iv True prev xs = xs"
  by (induction xs arbitrary: i) auto

lemma bucket_pass_all:
  assumes "bucket_pass b xs = (b', rej, ovf)"
  shows "mset (occupants b') + mset rej + mset ovf = mset (occupants b) + mset xs \<and>
         interval b' = interval b \<and>
         length (snaps_array b') = length (snaps_array b)"
proof -
  define z where "z = (length (snaps_array b) = 0)"
  obtain at' where p: "puts b 0 (accepted 0 (interval b) z 0 xs) = (b', at', ovf)"
    and rej: "rej = rejected 0 (interval b) z 0 xs"
    using assms by (auto simp: bucket_pass_def Let_def z_def split: prod.splits)
  show ?thesis
  proof (cases z)
    case True
    with p have "b' = b" "ovf = []" by (simp_all add: accepted_zero_cap)
    with True rej show ?thesis by (simp add: rejected_zero_cap)
  next
    case False
    then have at: "0 < length (snaps_array b)" by (simp add: z_def)
    have "mset (occupants b') + mset rej + mset ovf = (mset (occupants b') + mset ovf) + mset rej"
      by simp
    also have "\<dots> = (mset (occupants b) + mset (accepted 0 (interval b) z 0 xs)) + mset rej"
      by (simp only: puts_mset[OF at p])
    also have "\<dots> = mset (occupants b)
         + (mset (accepted 0 (interval b) z 0 xs) + mset (rejected 0 (interval b) z 0 xs))"
      by (simp add: rej)
    also have "\<dots> = mset (occupants b) + mset xs"
      by (simp only: mset_accepted_rejected)
    finally have "mset (occupants b') + mset rej + mset ovf = mset (occupants b) + mset xs" .
    with puts_queue[OF at p] show ?thesis by simp
  qed
qed

lemmas bucket_pass_props = bucket_pass_all[THEN conjunct1]
  bucket_pass_all[THEN conjunct2, THEN conjunct1]
  bucket_pass_all[THEN conjunct2, THEN conjunct2]

lemma insert_pure_mset:
  "insert_pure c xs = (c', ev) \<Longrightarrow> mset (kept c') + mset ev = mset (kept c) + mset xs"
proof (induction c arbitrary: xs c' ev)
  case Nil
  then show ?case by (simp add: kept_def)
next
  case (Cons b c)
  obtain b' rej ovf where bp: "bucket_pass b xs = (b', rej, ovf)" by (metis prod_cases3)
  obtain c2 ev2 where r: "insert_pure c ovf = (c2, ev2)" by fastforce
  from Cons.prems bp r have e: "c' = b' # c2" "ev = rej @ ev2" by simp_all
  have k: "kept (b' # c2) = occupants b' @ kept c2" "kept (b # c) = occupants b @ kept c"
    by (simp_all add: kept_def)
  have "mset (kept c') + mset ev = (mset (occupants b') + mset rej) + (mset (kept c2) + mset ev2)"
    by (simp add: e k)
  also have "\<dots> = (mset (occupants b') + mset rej) + (mset (kept c) + mset ovf)"
    by (simp only: Cons.IH[OF r])
  also have "\<dots> = (mset (occupants b') + mset rej + mset ovf) + mset (kept c)"
    by simp
  also have "\<dots> = (mset (occupants b) + mset xs) + mset (kept c)"
    by (simp only: bucket_pass_props(1)[OF bp])
  also have "\<dots> = mset (kept (b # c)) + mset xs"
    by (simp add: k)
  finally show ?case .
qed

lemma addBucket_Inr:
  "addBucket c b = Inr c' \<Longrightarrow>
     \<exists>bj iv n. b = Some bj \<and> Interval bj = Some iv \<and> Size bj = Some n \<and> 0 \<le> n \<and>
       c' = c @ [\<lparr>interval = iv, snaps_array = replicate (nat n) None, snaps_len = 0\<rparr>]"
  by (cases b) (auto simp: addBucket_def split: option.splits if_splits)

lemma addBuckets_fresh:
  "addBuckets c bs = Inr c' \<Longrightarrow> fresh c \<Longrightarrow> fresh c'"
proof (induction bs arbitrary: c)
  case Nil
  then show ?case by simp
next
  case (Cons b bs)
  then obtain c1 where a: "addBucket c b = Inr c1" and r: "addBuckets c1 bs = Inr c'"
    by (auto split: sum.splits)
  from addBucket_Inr[OF a] Cons.prems(2) have "fresh c1" by (auto simp: fresh_def)
  with Cons.IH[OF r] show ?case .
qed

lemma somes_all_None: "arr = replicate (length arr) None \<Longrightarrow> somes arr = []"
  by (metis somes_replicate_None)

lemma fresh_kept: "fresh c \<Longrightarrow> kept c = []"
  by (induction c) (auto simp: fresh_def kept_def occupants_def somes_all_None)

lemma fresh_newCascade: "fresh newCascade"
  by (simp add: fresh_def newCascade_def)

section \<open>Claims about the classification\<close>

text \<open>
  C2. A cascade just built from a tier list classifies any input into kept and evicted
  snapshots that together are exactly the input: as multisets, the ring occupants of all
  tiers plus the evicted list equal the input, so no snapshot is lost, duplicated or
  invented. This holds for \<open>cascade_insert\<close>, and for the loops run on the input in any
  order \<open>xs\<close>, hence whatever order \<^verbatim>\<open>sort.Slice\<close> gives to snapshots of equal \<open>created\<close>.
\<close>

theorem kept_evicted_partition:
  assumes "addBuckets newCascade tiers = Inr c"
    and "cascade_insert c ins = (c', evicted) \<or>
         (mset xs = mset ins \<and> insert_loop c xs = (c', evicted))"
  shows "mset (kept c') + mset evicted = mset ins"
proof -
  have "fresh c" by (rule addBuckets_fresh[OF assms(1) fresh_newCascade])
  then have k: "kept c = []" by (rule fresh_kept)
  from assms(2) have "\<exists>ys. mset ys = mset ins \<and> insert_pure c ys = (c', evicted)"
  proof
    assume "cascade_insert c ins = (c', evicted)"
    then have "mset (sort_key created ins) = mset ins \<and>
        insert_pure c (sort_key created ins) = (c', evicted)"
      by (simp add: cascade_insert_def insert_loop_pure)
    then show ?thesis ..
  next
    assume "mset xs = mset ins \<and> insert_loop c xs = (c', evicted)"
    then have "mset xs = mset ins \<and> insert_pure c xs = (c', evicted)"
      by (simp add: insert_loop_pure)
    then show ?thesis ..
  qed
  then obtain ys where ys: "mset ys = mset ins" "insert_pure c ys = (c', evicted)"
    by blast
  from insert_pure_mset[OF ys(2)] show ?thesis by (simp add: k ys(1))
qed

theorem kept_evicted_partition_witness:
  "addBuckets newCascade [tier Hour 1] = Inr [\<lparr>interval = Hour, snaps_array = [None], snaps_len = 0\<rparr>]
   \<and> cascade_insert [\<lparr>interval = Hour, snaps_array = [None], snaps_len = 0\<rparr>]
        [snap_at ''b'' 70, snap_at ''a'' 0]
      = ([\<lparr>interval = Hour, snaps_array = [Some (snap_at ''b'' 70)], snaps_len = 1\<rparr>],
         [snap_at ''a'' 0])
   \<and> mset (kept [\<lparr>interval = Hour, snaps_array = [Some (snap_at ''b'' 70)], snaps_len = 1\<rparr>])
        + mset [snap_at ''a'' 0]
      = mset [snap_at ''b'' 70, snap_at ''a'' 0]
   \<and> mset [snap_at ''a'' 0, snap_at ''b'' 70] = mset [snap_at ''b'' 70, snap_at ''a'' 0]
   \<and> insert_loop [\<lparr>interval = Hour, snaps_array = [None], snaps_len = 0\<rparr>]
        [snap_at ''a'' 0, snap_at ''b'' 70]
      = ([\<lparr>interval = Hour, snaps_array = [Some (snap_at ''b'' 70)], snaps_len = 1\<rparr>],
         [snap_at ''a'' 0])"
proof -
  have a: "addBuckets newCascade [tier Hour 1]
      = Inr [\<lparr>interval = Hour, snaps_array = [None], snaps_len = 0\<rparr>]"
    by (simp add: newCascade_def addBucket_def tier_def)
  have l: "insert_loop [\<lparr>interval = Hour, snaps_array = [None], snaps_len = 0\<rparr>]
        [snap_at ''a'' 0, snap_at ''b'' 70]
      = ([\<lparr>interval = Hour, snaps_array = [Some (snap_at ''b'' 70)], snaps_len = 1\<rparr>],
         [snap_at ''a'' 0])"
    by (simp add: insert_loop_pure bucket_pass_def snap_at_def
        time_Sub_def minDuration_def maxDuration_def Hour_def Minute_def)
  have b: "cascade_insert [\<lparr>interval = Hour, snaps_array = [None], snaps_len = 0\<rparr>]
        [snap_at ''b'' 70, snap_at ''a'' 0]
      = ([\<lparr>interval = Hour, snaps_array = [Some (snap_at ''b'' 70)], snaps_len = 1\<rparr>],
         [snap_at ''a'' 0])"
    using l by (simp add: cascade_insert_def snap_at_def Minute_def)
  have m: "mset [snap_at ''a'' 0, snap_at ''b'' 70] = mset [snap_at ''b'' 70, snap_at ''a'' 0]"
    by simp
  have "mset (kept [\<lparr>interval = Hour, snaps_array = [Some (snap_at ''b'' 70)], snaps_len = 1\<rparr>])
        + mset [snap_at ''a'' 0]
      = mset [snap_at ''b'' 70, snap_at ''a'' 0]"
    by (rule kept_evicted_partition[OF a]) (rule disjI2, rule conjI[OF m l])
  with a b m l show ?thesis by blast
qed

text \<open>
  C7. One tier of interval one hour and capacity two, and snapshots taken at minutes 0,
  30, 65 and 125 after any instant \<open>t0\<close>, under any paths: the classification keeps
  exactly the snapshots of minutes 65 and 125 and evicts exactly those of minutes 0 and
  30.
\<close>

theorem scenario_one_tier:
  "addBuckets newCascade [tier Hour 2]
     = Inr [\<lparr>interval = Hour, snaps_array = [None, None], snaps_len = 0\<rparr>]
   \<and> (let s0 = \<lparr>path = p0, subvolPath = q0, created = t0\<rparr>;
           s30 = \<lparr>path = p1, subvolPath = q1, created = t0 + 30 * Minute\<rparr>;
           s65 = \<lparr>path = p2, subvolPath = q2, created = t0 + 65 * Minute\<rparr>;
           s125 = \<lparr>path = p3, subvolPath = q3, created = t0 + 125 * Minute\<rparr>;
           (c', evicted) = cascade_insert
              [\<lparr>interval = Hour, snaps_array = [None, None], snaps_len = 0\<rparr>]
              [s0, s30, s65, s125]
       in mset (kept c') = {#s65, s125#} \<and> mset evicted = {#s0, s30#})"
proof (intro conjI)
  show "addBuckets newCascade [tier Hour 2]
     = Inr [\<lparr>interval = Hour, snaps_array = [None, None], snaps_len = 0\<rparr>]"
    by (simp add: newCascade_def addBucket_def tier_def eval_nat_numeral)
  show "let s0 = \<lparr>path = p0, subvolPath = q0, created = t0\<rparr>;
           s30 = \<lparr>path = p1, subvolPath = q1, created = t0 + 30 * Minute\<rparr>;
           s65 = \<lparr>path = p2, subvolPath = q2, created = t0 + 65 * Minute\<rparr>;
           s125 = \<lparr>path = p3, subvolPath = q3, created = t0 + 125 * Minute\<rparr>;
           (c', evicted) = cascade_insert
              [\<lparr>interval = Hour, snaps_array = [None, None], snaps_len = 0\<rparr>]
              [s0, s30, s65, s125]
       in mset (kept c') = {#s65, s125#} \<and> mset evicted = {#s0, s30#}"
    by (simp add: cascade_insert_def insert_loop_pure bucket_pass_def kept_def occupants_def
        time_Sub_def minDuration_def maxDuration_def Hour_def Minute_def)
qed

section \<open>Spacing of the snapshots a tier keeps\<close>

lemma time_Sub_ge:
  assumes "u \<le> t" "\<not> time_Sub t u < iv"
  shows "iv \<le> t - u"
  using assms by (auto simp: time_Sub_def Let_def minDuration_def maxDuration_def split: if_splits)

lemma accepted_subset: "set (accepted i iv z prev xs) \<subseteq> set xs"
proof -
  have "set_mset (mset (accepted i iv z prev xs) + mset (rejected i iv z prev xs)) = set xs"
    by (simp only: mset_accepted_rejected set_mset_mset)
  then show ?thesis by auto
qed

lemma accepted_sorted:
  "sorted (map created xs) \<Longrightarrow> sorted (map created (accepted i iv z prev xs))"
proof (induction xs arbitrary: i prev)
  case Nil
  then show ?case by simp
next
  case (Cons s xs)
  have "\<forall>a \<in> set (accepted (Suc i) iv z (created s) xs). created s \<le> created a"
    using Cons.prems accepted_subset[of "Suc i" iv z "created s" xs] by auto
  with Cons show ?case by auto
qed

lemma accepted_spaced:
  assumes "sorted (map created xs)" "0 < i \<longrightarrow> (\<forall>x \<in> set xs. prev \<le> created x)"
  shows "sorted_wrt (\<lambda>x y. iv \<le> created y - created x) (accepted i iv z prev xs) \<and>
         (0 < i \<longrightarrow> (\<forall>a \<in> set (accepted i iv z prev xs). iv \<le> created a - prev))"
  using assms
proof (induction xs arbitrary: i prev)
  case Nil
  then show ?case by simp
next
  case (Cons s xs)
  have srt: "sorted (map created xs)" and ge: "\<forall>x \<in> set xs. created s \<le> created x"
    using Cons.prems(1) by auto
  consider (zero) "z" | (gap) "\<not> z" "0 < i \<and> time_Sub (created s) prev < iv"
    | (keep) "\<not> ((0 < i \<and> time_Sub (created s) prev < iv) \<or> z)" by blast
  then show ?case
  proof cases
    case zero
    then show ?thesis by (simp add: accepted_zero_cap)
  next
    case gap
    have "0 < Suc i \<longrightarrow> (\<forall>x \<in> set xs. prev \<le> created x)"
      using gap Cons.prems(2) by auto
    from Cons.IH[OF srt this] gap show ?thesis by auto
  next
    case keep
    note False = keep
    have ih: "sorted_wrt (\<lambda>x y. iv \<le> created y - created x) (accepted (Suc i) iv z (created s) xs)"
      "\<forall>a \<in> set (accepted (Suc i) iv z (created s) xs). iv \<le> created a - created s"
      using Cons.IH[OF srt, of "Suc i" "created s"] ge by auto
    have first: "0 < i \<longrightarrow> iv \<le> created s - prev"
      using False Cons.prems(2) by (auto intro: time_Sub_ge)
    have rest: "0 < i \<longrightarrow> (\<forall>a \<in> set (accepted (Suc i) iv z (created s) xs). iv \<le> created a - prev)"
    proof (intro impI ballI)
      fix a assume i: "0 < i" and a: "a \<in> set (accepted (Suc i) iv z (created s) xs)"
      from ih(2) a have "iv \<le> created a - created s" by blast
      moreover from i Cons.prems(2) have "prev \<le> created s" by simp
      ultimately show "iv \<le> created a - prev" by linarith
    qed
    from False ih first rest show ?thesis by auto
  qed
qed

lemma sorted_wrt_swap_halves:
  assumes "sorted_wrt P (U @ V)"
  shows "sorted_wrt (\<lambda>x y. P x y \<or> P y x) (V @ U)"
proof -
  have "sorted_wrt (\<lambda>x y. P x y \<or> P y x) (U @ V)"
    using assms by (rule sorted_wrt_mono_rel[rotated]) simp
  then show ?thesis by (auto simp: sorted_wrt_append)
qed

text \<open>A pass over an empty ring: the accepted snapshots are the displaced ones followed
  by the ring's content in the order of writing, which the slots hold rotated.\<close>

lemma fresh_pass:
  assumes "bucket_pass b xs = (b', rej, ovf)"
    and "snaps_array b = replicate (length (snaps_array b)) None"
  shows "\<exists>U V. accepted 0 (interval b) (length (snaps_array b) = 0) 0 xs = ovf @ U @ V \<and>
           occupants b' = V @ U"
proof -
  define z where "z = (length (snaps_array b) = 0)"
  define A where "A = accepted 0 (interval b) z 0 xs"
  obtain at' where p: "puts b 0 A = (b', at', ovf)"
    using assms(1) by (auto simp: bucket_pass_def Let_def z_def A_def split: prod.splits)
  show ?thesis
  proof (cases z)
    case True
    then have A: "A = []" by (simp add: A_def accepted_zero_cap)
    from True have "snaps_array b = []" by (simp add: z_def)
    with p A have "occupants b' = [] @ []" "ovf = []" by (simp_all add: occupants_def)
    with A show ?thesis unfolding A_def z_def by (intro exI[of _ "[]"]) simp
  next
    case False
    then have at: "0 < length (snaps_array b)" by (simp add: z_def)
    define l where "l = ring_order (snaps_array b) 0 @ map Some A"
    note pq = puts_queue[OF at p, folded l_def]
    have sl: "somes l = A"
      using assms(2) by (simp add: l_def ring_order_def somes_append somes_map_Some somes_all_None)
    define U where "U = somes (drop at' (snaps_array b'))"
    define V where "V = somes (take at' (snaps_array b'))"
    have ro: "ring_order (snaps_array b') at' = drop (length A) l"
      and ov: "ovf = somes (take (length A) l)"
      using pq by blast+
    have "U @ V = somes (ring_order (snaps_array b') at')"
      by (simp add: U_def V_def ring_order_def somes_append)
    then have "ovf @ U @ V = somes (take (length A) l) @ somes (drop (length A) l)"
      by (simp only: ro ov)
    also have "\<dots> = somes (take (length A) l @ drop (length A) l)"
      by (simp only: somes_append)
    also have "\<dots> = A" by (simp add: sl)
    finally have 1: "A = ovf @ U @ V" by simp
    have "occupants b' = somes (take at' (snaps_array b') @ drop at' (snaps_array b'))"
      by (simp add: occupants_def)
    then have 2: "occupants b' = V @ U" by (simp only: somes_append U_def V_def)
    from 1 2 show ?thesis unfolding A_def z_def by blast
  qed
qed

lemma insert_pure_spacing:
  assumes "fresh c" "sorted (map created xs)" "insert_pure c xs = (c', ev)"
  shows "list_all2 (\<lambda>b b'. interval b' = interval b \<and>
            length (snaps_array b') = length (snaps_array b) \<and>
            sorted_wrt (\<lambda>x y. interval b \<le> \<bar>created x - created y\<bar>) (occupants b')) c c'"
  using assms
proof (induction c arbitrary: xs c' ev)
  case Nil
  then show ?case by simp
next
  case (Cons b c)
  obtain b' rej ovf where bp: "bucket_pass b xs = (b', rej, ovf)" by (metis prod_cases3)
  obtain c2 ev2 where r: "insert_pure c ovf = (c2, ev2)" by fastforce
  from Cons.prems(3) bp r have e: "c' = b' # c2" by simp
  have fb: "snaps_array b = replicate (length (snaps_array b)) None" and fc: "fresh c"
    using Cons.prems(1) by (simp_all add: fresh_def)
  define A where "A = accepted 0 (interval b) (length (snaps_array b) = 0) 0 xs"
  obtain U V where A: "A = ovf @ U @ V" and occ: "occupants b' = V @ U"
    using fresh_pass[OF bp fb] unfolding A_def by blast
  have sA: "sorted (map created A)"
    unfolding A_def by (rule accepted_sorted[OF Cons.prems(2)])
  then have so: "sorted (map created ovf)"
    by (simp add: A sorted_append)
  have "sorted_wrt (\<lambda>x y. interval b \<le> created y - created x) A"
    unfolding A_def using accepted_spaced[OF Cons.prems(2), of 0 0] by simp
  then have "sorted_wrt (\<lambda>x y. interval b \<le> created y - created x) (U @ V)"
    by (simp add: A sorted_wrt_append)
  then have "sorted_wrt (\<lambda>x y. interval b \<le> created y - created x \<or>
                interval b \<le> created x - created y) (V @ U)"
    by (rule sorted_wrt_swap_halves)
  then have sp: "sorted_wrt (\<lambda>x y. interval b \<le> \<bar>created x - created y\<bar>) (occupants b')"
    unfolding occ by (rule sorted_wrt_mono_rel[rotated]) linarith
  from Cons.IH[OF fc so r] sp bucket_pass_props(2,3)[OF bp] show ?case
    by (simp add: e)
qed

lemma addBuckets_tiers:
  assumes "\<forall>t \<in> set tiers. \<exists>iv n. t = tier iv n \<and> 0 \<le> n"
  shows "\<exists>c'. addBuckets c tiers = Inr c' \<and> length c' = length c + length tiers \<and>
           take (length c) c' = c \<and>
           (\<forall>k < length tiers. \<exists>iv n. tiers ! k = tier iv n \<and>
               interval (c' ! (length c + k)) = iv \<and>
               snaps_array (c' ! (length c + k)) = replicate (nat n) None)"
  using assms
proof (induction tiers arbitrary: c)
  case Nil
  then show ?case by simp
next
  case (Cons t tiers)
  then obtain iv n where t: "t = tier iv n" "0 \<le> n" by auto
  define c1 where "c1 = c @ [\<lparr>interval = iv, snaps_array = replicate (nat n) None, snaps_len = 0\<rparr>]"
  have a: "addBucket c t = Inr c1"
    using t by (simp add: addBucket_def tier_def c1_def)
  from Cons.prems have "\<forall>t \<in> set tiers. \<exists>iv n. t = tier iv n \<and> 0 \<le> n" by simp
  from Cons.IH[OF this, of c1] obtain c' where c':
    "addBuckets c1 tiers = Inr c'" "length c' = length c1 + length tiers" "take (length c1) c' = c1"
    "\<forall>k < length tiers. \<exists>iv n. tiers ! k = tier iv n \<and>
               interval (c' ! (length c1 + k)) = iv \<and>
               snaps_array (c' ! (length c1 + k)) = replicate (nat n) None"
    by blast
  have l1: "length c1 = Suc (length c)" by (simp add: c1_def)
  have pre: "take (length c) c' = c"
  proof -
    have "take (length c) c' = take (length c) (take (length c1) c')" by (simp add: l1 min_def)
    also have "\<dots> = c" by (simp add: c'(3)) (simp add: c1_def)
    finally show ?thesis .
  qed
  have hd: "c' ! length c = \<lparr>interval = iv, snaps_array = replicate (nat n) None, snaps_len = 0\<rparr>"
  proof -
    have "c' ! length c = take (length c1) c' ! length c" by (simp add: l1)
    also have "\<dots> = c1 ! length c" by (simp only: c'(3))
    finally show ?thesis by (simp add: c1_def)
  qed
  have all: "\<forall>k < length (t # tiers). \<exists>iv n. (t # tiers) ! k = tier iv n \<and>
               interval (c' ! (length c + k)) = iv \<and>
               snaps_array (c' ! (length c + k)) = replicate (nat n) None"
  proof (intro allI impI)
    fix k assume k: "k < length (t # tiers)"
    show "\<exists>iv n. (t # tiers) ! k = tier iv n \<and>
               interval (c' ! (length c + k)) = iv \<and>
               snaps_array (c' ! (length c + k)) = replicate (nat n) None"
    proof (cases k)
      case 0
      with t hd show ?thesis by auto
    next
      case (Suc j)
      with k c'(4) have "\<exists>iv n. tiers ! j = tier iv n \<and>
               interval (c' ! (length c1 + j)) = iv \<and>
               snaps_array (c' ! (length c1 + j)) = replicate (nat n) None" by simp
      then show ?thesis by (simp add: Suc l1)
    qed
  qed
  from a c'(1,2) pre all show ?case by (simp add: l1)
qed

text \<open>
  C5. For a tier list whose capacities are all positive, the cascade can be built, and
  after the classification of any input every tier holds at most its capacity of
  snapshots, any two of them created at least the tier's interval apart. This holds for
  \<open>cascade_insert\<close>, and for the loops run on any input \<open>xs\<close> in ascending order of
  \<open>created\<close>, hence whatever order \<^verbatim>\<open>sort.Slice\<close> gives to snapshots of equal \<open>created\<close>.
\<close>

theorem capacity_and_spacing:
  assumes "\<forall>t \<in> set tiers. \<exists>iv n. t = tier iv n \<and> 0 < n"
  shows "\<exists>c. addBuckets newCascade tiers = Inr c \<and>
           tiers_respected tiers (fst (cascade_insert c ins)) \<and>
           (\<forall>xs. sorted (map created xs) \<longrightarrow> tiers_respected tiers (fst (insert_loop c xs)))"
proof -
  have "\<forall>t \<in> set tiers. \<exists>iv n. t = tier iv n \<and> 0 \<le> n"
    using assms by force
  from addBuckets_tiers[OF this, of newCascade] obtain c where c:
    "addBuckets newCascade tiers = Inr c" "length c = length tiers"
    "\<forall>k < length tiers. \<exists>iv n. tiers ! k = tier iv n \<and> interval (c ! k) = iv \<and>
        snaps_array (c ! k) = replicate (nat n) None"
    by (auto simp: newCascade_def)
  have f: "fresh c" by (rule addBuckets_fresh[OF c(1) fresh_newCascade])
  have main: "tiers_respected tiers (fst (insert_loop c xs))" if s: "sorted (map created xs)" for xs
  proof -
    obtain c' evicted where p: "insert_pure c xs = (c', evicted)" by fastforce
    note sp = insert_pure_spacing[OF f s p]
    then have len: "length c' = length tiers" using c(2) by (simp add: list_all2_lengthD)
    have "\<forall>k < length tiers. \<exists>iv n. tiers ! k = tier iv n \<and>
              length (occupants (c' ! k)) \<le> nat n \<and>
              (\<forall>i j. i < j \<and> j < length (occupants (c' ! k)) \<longrightarrow>
                 iv \<le> \<bar>created (occupants (c' ! k) ! i) - created (occupants (c' ! k) ! j)\<bar>)"
    proof (intro allI impI)
      fix k assume k: "k < length tiers"
      with c(3) obtain iv n where t: "tiers ! k = tier iv n" "interval (c ! k) = iv"
        "snaps_array (c ! k) = replicate (nat n) None" by blast
      from sp k c(2) have b: "length (snaps_array (c' ! k)) = length (snaps_array (c ! k))"
        "sorted_wrt (\<lambda>x y. interval (c ! k) \<le> \<bar>created x - created y\<bar>) (occupants (c' ! k))"
        by (simp_all add: list_all2_conv_all_nth)
      have "length (occupants (c' ! k)) \<le> nat n"
        using length_somes_le[of "snaps_array (c' ! k)"] b(1) t(3) by (simp add: occupants_def)
      moreover have "\<forall>i j. i < j \<and> j < length (occupants (c' ! k)) \<longrightarrow>
                   iv \<le> \<bar>created (occupants (c' ! k) ! i) - created (occupants (c' ! k) ! j)\<bar>"
        using b(2) t(2) by (auto simp: sorted_wrt_iff_nth_less)
      ultimately show "\<exists>iv n. tiers ! k = tier iv n \<and>
                length (occupants (c' ! k)) \<le> nat n \<and>
                (\<forall>i j. i < j \<and> j < length (occupants (c' ! k)) \<longrightarrow>
                   iv \<le> \<bar>created (occupants (c' ! k) ! i) - created (occupants (c' ! k) ! j)\<bar>)"
        using t(1) by blast
    qed
    with len show ?thesis by (simp add: tiers_respected_def insert_loop_pure p)
  qed
  have "tiers_respected tiers (fst (cascade_insert c ins))"
    unfolding cascade_insert_def by (rule main) simp
  with c(1) main show ?thesis by blast
qed

theorem capacity_and_spacing_witness:
  "(0::int) < 2 \<and>
   (\<exists>c. addBuckets newCascade [tier Hour 2] = Inr c \<and>
      tiers_respected [tier Hour 2]
        (fst (cascade_insert c
           [snap_at ''a'' 0, snap_at ''b'' 30, snap_at ''c'' 65, snap_at ''d'' 125])) \<and>
      (\<forall>xs. sorted (map created xs) \<longrightarrow> tiers_respected [tier Hour 2] (fst (insert_loop c xs))))"
proof (intro conjI)
  show "(0::int) < 2" by simp
  have h: "\<forall>t \<in> set [tier Hour 2]. \<exists>iv n. t = tier iv n \<and> 0 < n"
    by (simp, rule exI[of _ Hour], rule exI[of _ 2], simp)
  show "\<exists>c. addBuckets newCascade [tier Hour 2] = Inr c \<and>
      tiers_respected [tier Hour 2]
        (fst (cascade_insert c
           [snap_at ''a'' 0, snap_at ''b'' 30, snap_at ''c'' 65, snap_at ''d'' 125])) \<and>
      (\<forall>xs. sorted (map created xs) \<longrightarrow> tiers_respected [tier Hour 2] (fst (insert_loop c xs)))"
    by (rule capacity_and_spacing[OF h])
qed

text \<open>
  C1, as the code has it. A snapshot that a tier rejects (the tier has capacity zero, or
  the snapshot is not the first of the pass and its gap to the snapshot kept last is
  below the interval) takes no ring slot and is appended to \<^verbatim>\<open>out\<close>, the final evicted
  result, at once: the iteration changes nothing else, so the rejected snapshot is not
  in the next tier's input. With a capacity other than zero the first snapshot of a pass
  is always kept and sets the cursor, so "not the first" is "one has been kept in this
  pass". The next tier's input is exactly what the pass displaced from the ring, and the
  evicted result of the whole classification is what every tier rejected, followed by
  what fell out of the last tier.
\<close>

theorem rejected_goes_to_out:
  "((length (snaps_array (bkt st)) = 0 \<or>
      (0 < i \<and> time_Sub (created (in_array st ! i)) (prevCreated st) < interval (bkt st)))
     \<longrightarrow> insert_iter i st = st\<lparr>out := out st @ [in_array st ! i]\<rparr>) \<and>
   (length (snaps_array (bkt st)) \<noteq> 0
     \<longrightarrow> out (insert_iter 0 st) = out st \<and>
         prevCreated (insert_iter 0 st) = created (in_array st ! 0)) \<and>
   insert_loop [] xs = ([], xs) \<and>
   insert_loop (b # c) xs =
     (let (b', rej, ovf) = bucket_pass b xs;
          (c', evicted) = insert_loop c ovf
      in (b' # c', rej @ evicted))"
proof (intro conjI impI)
  assume "length (snaps_array (bkt st)) = 0 \<or>
      (0 < i \<and> time_Sub (created (in_array st ! i)) (prevCreated st) < interval (bkt st))"
  then show "insert_iter i st = st\<lparr>out := out st @ [in_array st ! i]\<rparr>"
    by (intro insert_iter_reject) blast
next
  assume "length (snaps_array (bkt st)) \<noteq> 0"
  then show "out (insert_iter 0 st) = out st"
    and "prevCreated (insert_iter 0 st) = created (in_array st ! 0)"
    by (simp_all add: insert_iter_def Let_def append_overflow_def split: option.splits)
next
  show "insert_loop [] xs = ([], xs)" by (simp add: insert_loop_pure)
  show "insert_loop (b # c) xs =
     (let (b', rej, ovf) = bucket_pass b xs;
          (c', evicted) = insert_loop c ovf
      in (b' # c', rej @ evicted))"
    by (simp add: insert_loop_pure)
qed

theorem rejected_goes_to_out_witness:
  "(0 < (1::nat) \<and>
    time_Sub (created (snap_at ''b'' 30)) (created (snap_at ''a'' 0)) < Hour \<and>
    insert_iter 1
      \<lparr>bkt = \<lparr>interval = Hour, snaps_array = [Some (snap_at ''a'' 0), None], snaps_len = 1\<rparr>,
       prevCreated = 0, insertAt = 1, out = [],
       in_array = [snap_at ''a'' 0, snap_at ''b'' 30], in_len = 2,
       overflow_array = [], overflow_len = 0, shared = False\<rparr>
    = \<lparr>bkt = \<lparr>interval = Hour, snaps_array = [Some (snap_at ''a'' 0), None], snaps_len = 1\<rparr>,
       prevCreated = 0, insertAt = 1, out = [snap_at ''b'' 30],
       in_array = [snap_at ''a'' 0, snap_at ''b'' 30], in_len = 2,
       overflow_array = [], overflow_len = 0, shared = False\<rparr>) \<and>
   (length [None, None :: snap option] \<noteq> 0 \<and>
    out (insert_iter 0
      \<lparr>bkt = \<lparr>interval = Hour, snaps_array = [None, None], snaps_len = 0\<rparr>,
       prevCreated = 0, insertAt = 0, out = [],
       in_array = [snap_at ''a'' 0, snap_at ''b'' 30], in_len = 2,
       overflow_array = [], overflow_len = 0, shared = False\<rparr>) = [])"
proof -
  define st1 where "st1 =
      \<lparr>bkt = \<lparr>interval = Hour, snaps_array = [Some (snap_at ''a'' 0), None], snaps_len = 1\<rparr>,
       prevCreated = 0, insertAt = 1, out = [],
       in_array = [snap_at ''a'' 0, snap_at ''b'' 30], in_len = 2,
       overflow_array = [], overflow_len = 0, shared = False\<rparr>"
  define st0 where "st0 =
      \<lparr>bkt = \<lparr>interval = Hour, snaps_array = [None, None], snaps_len = 0\<rparr>,
       prevCreated = 0, insertAt = 0, out = [],
       in_array = [snap_at ''a'' 0, snap_at ''b'' 30], in_len = 2,
       overflow_array = [], overflow_len = 0, shared = False\<rparr>"
  have g: "time_Sub (created (snap_at ''b'' 30)) (created (snap_at ''a'' 0)) < Hour"
    by (simp add: snap_at_def time_Sub_def minDuration_def maxDuration_def Hour_def Minute_def)
  have h1: "length (snaps_array (bkt st1)) = 0 \<or>
      (0 < (1::nat) \<and> time_Sub (created (in_array st1 ! 1)) (prevCreated st1) < interval (bkt st1))"
    using g by (simp add: st1_def snap_at_def)
  have h0: "length (snaps_array (bkt st0)) \<noteq> 0" by (simp add: st0_def)
  from rejected_goes_to_out[of st1 1] h1
  have r1: "insert_iter 1 st1 = st1\<lparr>out := out st1 @ [in_array st1 ! 1]\<rparr>" by blast
  from rejected_goes_to_out[of st0] h0
  have r0: "out (insert_iter 0 st0) = out st0" by blast
  from r1 r0 g show ?thesis by (simp add: st1_def st0_def)
qed

text \<open>
  C1 as stated fails on two tiers, of interval one hour and capacity two and of interval
  one minute and capacity five, with snapshots at minutes 0 and 30. The first tier
  rejects the second snapshot, which is evicted although the second tier, the last one,
  holds nothing and never saw it: offered that snapshot, the second tier keeps it.
\<close>

theorem rejected_not_offered_to_next_tier:
  "addBuckets newCascade [tier Hour 2, tier Minute 5]
     = Inr [\<lparr>interval = Hour, snaps_array = [None, None], snaps_len = 0\<rparr>,
            \<lparr>interval = Minute, snaps_array = [None, None, None, None, None], snaps_len = 0\<rparr>]
   \<and> cascade_insert
       [\<lparr>interval = Hour, snaps_array = [None, None], snaps_len = 0\<rparr>,
        \<lparr>interval = Minute, snaps_array = [None, None, None, None, None], snaps_len = 0\<rparr>]
       [snap_at ''a'' 0, snap_at ''b'' 30]
     = ([\<lparr>interval = Hour, snaps_array = [Some (snap_at ''a'' 0), None], snaps_len = 1\<rparr>,
         \<lparr>interval = Minute, snaps_array = [None, None, None, None, None], snaps_len = 0\<rparr>],
        [snap_at ''b'' 30])
   \<and> cascade_insert
       [\<lparr>interval = Minute, snaps_array = [None, None, None, None, None], snaps_len = 0\<rparr>]
       [snap_at ''b'' 30]
     = ([\<lparr>interval = Minute,
           snaps_array = [Some (snap_at ''b'' 30), None, None, None, None], snaps_len = 1\<rparr>],
        [])"
proof (intro conjI)
  show "addBuckets newCascade [tier Hour 2, tier Minute 5]
     = Inr [\<lparr>interval = Hour, snaps_array = [None, None], snaps_len = 0\<rparr>,
            \<lparr>interval = Minute, snaps_array = [None, None, None, None, None], snaps_len = 0\<rparr>]"
    by (simp add: newCascade_def addBucket_def tier_def eval_nat_numeral)
  show "cascade_insert
       [\<lparr>interval = Hour, snaps_array = [None, None], snaps_len = 0\<rparr>,
        \<lparr>interval = Minute, snaps_array = [None, None, None, None, None], snaps_len = 0\<rparr>]
       [snap_at ''a'' 0, snap_at ''b'' 30]
     = ([\<lparr>interval = Hour, snaps_array = [Some (snap_at ''a'' 0), None], snaps_len = 1\<rparr>,
         \<lparr>interval = Minute, snaps_array = [None, None, None, None, None], snaps_len = 0\<rparr>],
        [snap_at ''b'' 30])"
    by (simp add: cascade_insert_def insert_loop_pure bucket_pass_def snap_at_def
        time_Sub_def minDuration_def maxDuration_def Hour_def Minute_def)
  show "cascade_insert
       [\<lparr>interval = Minute, snaps_array = [None, None, None, None, None], snaps_len = 0\<rparr>]
       [snap_at ''b'' 30]
     = ([\<lparr>interval = Minute,
           snaps_array = [Some (snap_at ''b'' 30), None, None, None, None], snaps_len = 1\<rparr>],
        [])"
    by (simp add: cascade_insert_def insert_loop_pure bucket_pass_def snap_at_def
        time_Sub_def minDuration_def maxDuration_def Hour_def Minute_def)
qed

text \<open>
  C3, at the input on which the code departs from the claim. One tier of interval one
  hour and capacity two, snapshots at minutes 0, 65 and 125. The first run evicts the
  snapshot of minute 0 and leaves \<^verbatim>\<open>len(b.snaps)\<close> at one, because the ring has wrapped;
  \<^verbatim>\<open>reset\<close> then clears slot 0 only and the snapshot of minute 65 stays in slot 1. The
  second run on the same input meets it there and evicts the snapshots of minutes 65 and
  0, while it keeps that of minute 65 as well.
\<close>

theorem reset_leaves_wrapped_slots:
  "cascade_insert [\<lparr>interval = Hour, snaps_array = [None, None], snaps_len = 0\<rparr>]
       [snap_at ''a'' 0, snap_at ''b'' 65, snap_at ''c'' 125]
     = ([\<lparr>interval = Hour,
           snaps_array = [Some (snap_at ''c'' 125), Some (snap_at ''b'' 65)], snaps_len = 1\<rparr>],
        [snap_at ''a'' 0])
   \<and> reset [\<lparr>interval = Hour,
           snaps_array = [Some (snap_at ''c'' 125), Some (snap_at ''b'' 65)], snaps_len = 1\<rparr>]
     = [\<lparr>interval = Hour, snaps_array = [None, Some (snap_at ''b'' 65)], snaps_len = 0\<rparr>]
   \<and> cascade_insert
       [\<lparr>interval = Hour, snaps_array = [None, Some (snap_at ''b'' 65)], snaps_len = 0\<rparr>]
       [snap_at ''a'' 0, snap_at ''b'' 65, snap_at ''c'' 125]
     = ([\<lparr>interval = Hour,
           snaps_array = [Some (snap_at ''c'' 125), Some (snap_at ''b'' 65)], snaps_len = 1\<rparr>],
        [snap_at ''b'' 65, snap_at ''a'' 0])"
proof (intro conjI)
  show "cascade_insert [\<lparr>interval = Hour, snaps_array = [None, None], snaps_len = 0\<rparr>]
       [snap_at ''a'' 0, snap_at ''b'' 65, snap_at ''c'' 125]
     = ([\<lparr>interval = Hour,
           snaps_array = [Some (snap_at ''c'' 125), Some (snap_at ''b'' 65)], snaps_len = 1\<rparr>],
        [snap_at ''a'' 0])"
    by (simp add: cascade_insert_def insert_loop_pure bucket_pass_def snap_at_def
        time_Sub_def minDuration_def maxDuration_def Hour_def Minute_def)
  show "reset [\<lparr>interval = Hour,
           snaps_array = [Some (snap_at ''c'' 125), Some (snap_at ''b'' 65)], snaps_len = 1\<rparr>]
     = [\<lparr>interval = Hour, snaps_array = [None, Some (snap_at ''b'' 65)], snaps_len = 0\<rparr>]"
    by (simp add: reset_def reset_bucket_def)
  show "cascade_insert
       [\<lparr>interval = Hour, snaps_array = [None, Some (snap_at ''b'' 65)], snaps_len = 0\<rparr>]
       [snap_at ''a'' 0, snap_at ''b'' 65, snap_at ''c'' 125]
     = ([\<lparr>interval = Hour,
           snaps_array = [Some (snap_at ''c'' 125), Some (snap_at ''b'' 65)], snaps_len = 1\<rparr>],
        [snap_at ''b'' 65, snap_at ''a'' 0])"
    by (simp add: cascade_insert_def insert_loop_pure bucket_pass_def snap_at_def
        time_Sub_def minDuration_def maxDuration_def Hour_def Minute_def)
qed

section \<open>Claims about the configuration\<close>

text \<open>
  C8 as stated fails for a tier definition of size zero: validation accepts it,
  \<^verbatim>\<open>addBucket\<close> builds the tier without an error, and it is the classification that deals
  with it, by rejecting what the tier is offered. Only \<^verbatim>\<open>newBucket\<close>, which the
  configuration path does not call, refuses the size.
\<close>

theorem zero_size_tier_is_accepted:
  "bucketJSON_validate (tier Hour 0) = None
   \<and> profileJSON_validate
        (Some \<lparr>Subvolume = Some ''/'', Storage = Some ''/snap/root'', Backup = None,
               Buckets = [tier Hour 0]\<rparr>) = None
   \<and> addBucket newCascade (tier Hour 0)
        = Inr [\<lparr>interval = Hour, snaps_array = [], snaps_len = 0\<rparr>]
   \<and> cascade_insert [\<lparr>interval = Hour, snaps_array = [], snaps_len = 0\<rparr>] [snap_at ''a'' 0]
        = ([\<lparr>interval = Hour, snaps_array = [], snaps_len = 0\<rparr>], [snap_at ''a'' 0])
   \<and> newBucket Hour 0 = Inl PanicBucketSize"
  by (simp add: bucketJSON_validate_def profileJSON_validate_def tier_def addBucket_def
      newCascade_def newBucket_def cascade_insert_def insert_loop_pure bucket_pass_def
      accepted_zero_cap rejected_zero_cap)

text \<open>
  C8, as the code has it. \<^verbatim>\<open>newBucket\<close> fails exactly for the sizes that are not
  positive, but the configuration path does not use it: validation accepts every tier
  definition whose interval and size are present, whatever the size; \<^verbatim>\<open>addBucket\<close>,
  which runs before any classification, panics exactly for the negative sizes; and a
  tier of size zero is built and evicts at classification time every snapshot it is
  offered.
\<close>

theorem tier_size_checks:
  "(newBucket iv n = Inl PanicBucketSize) = (n \<le> 0)
   \<and> bucketJSON_validate (tier iv n) = None
   \<and> addBucket c (tier iv n)
        = (if n < 0 then Inl PanicMakeSliceCap
           else Inr (c @ [\<lparr>interval = iv, snaps_array = replicate (nat n) None, snaps_len = 0\<rparr>]))
   \<and> cascade_insert [\<lparr>interval = iv, snaps_array = replicate (nat 0) None, snaps_len = 0\<rparr>] ins
        = ([\<lparr>interval = iv, snaps_array = [], snaps_len = 0\<rparr>], sort_key created ins)"
  by (simp add: bucketJSON_validate_def tier_def addBucket_def newBucket_def
      cascade_insert_def insert_loop_pure bucket_pass_def accepted_zero_cap rejected_zero_cap)

text \<open>
  C9. \<^verbatim>\<open>loadConfig\<close> does not look at its argument: its result is the same for any two
  file names, and it is decided by the file \<^verbatim>\<open>config.json\<close> of the working directory
  alone.
\<close>

theorem loadConfig_ignores_filename:
  "loadConfig decode fs filename = loadConfig decode fs filename'
   \<and> loadConfig decode fs filename =
       (case files fs (cwd fs @ ''/config.json'') of
          None \<Rightarrow> Inl (OpenError ''config.json'')
        | Some contents \<Rightarrow>
            (case decode contents of
               Inl err \<Rightarrow> Inl err
             | Inr cfg \<Rightarrow>
                 (case configJSON_validate cfg of
                    Some err \<Rightarrow> Inl err
                  | None \<Rightarrow> Inr cfg)))"
  by (simp add: loadConfig_def os_Open_def split: option.splits)

lemma validate_profiles_None:
  "validate_profiles ps = None \<Longrightarrow> (name, p) \<in> set ps \<Longrightarrow> profileJSON_validate p = None"
  by (induction ps) (auto split: option.splits if_splits)

lemma profileJSON_validate_None:
  "profileJSON_validate p = None \<Longrightarrow> \<exists>pj. p = Some pj \<and> Subvolume pj \<noteq> None"
  by (cases p) (auto simp: profileJSON_validate_def split: if_splits)

lemma loadConfig_Inr:
  "loadConfig decode fs filename = Inr cfg \<Longrightarrow> configJSON_validate cfg = None"
  by (auto simp: loadConfig_def split: sum.splits option.splits)

text \<open>
  C10. When \<^verbatim>\<open>loadConfig\<close> returns a configuration, every profile of its table is
  present and has its \<open>Subvolume\<close> set. A profile with no \<open>Subvolume\<close>, such as a backup
  profile that names its source in \<open>Backup\<close>, fails its validation with the error that
  the subvolume is missing, the validation of any table that holds it fails, and
  \<^verbatim>\<open>loadConfig\<close> does not return such a table.
\<close>

theorem load_requires_subvolume:
  "(loadConfig decode fs filename = Inr cfg \<longrightarrow>
      (\<forall>(name, p) \<in> set (Profiles cfg). \<exists>pj. p = Some pj \<and> Subvolume pj \<noteq> None)) \<and>
   (Subvolume pj = None \<longrightarrow>
      profileJSON_validate (Some pj) = Some SubvolumeMissing \<and>
      configJSON_validate \<lparr>Profiles = [(name, Some pj)]\<rparr>
        = Some (ProfileError name SubvolumeMissing) \<and>
      ((name, Some pj) \<in> set (Profiles cfg) \<longrightarrow>
         configJSON_validate cfg \<noteq> None \<and> loadConfig decode fs filename \<noteq> Inr cfg))"
proof (intro conjI impI)
  assume l: "loadConfig decode fs filename = Inr cfg"
  show "\<forall>(name, p) \<in> set (Profiles cfg). \<exists>pj. p = Some pj \<and> Subvolume pj \<noteq> None"
  proof (clarify)
    fix name p assume "(name, p) \<in> set (Profiles cfg)"
    with loadConfig_Inr[OF l] have "profileJSON_validate p = None"
      by (auto simp: configJSON_validate_def intro: validate_profiles_None)
    then show "\<exists>pj. p = Some pj \<and> Subvolume pj \<noteq> None" by (rule profileJSON_validate_None)
  qed
next
  assume s: "Subvolume pj = None"
  then show v: "profileJSON_validate (Some pj) = Some SubvolumeMissing"
    by (simp add: profileJSON_validate_def)
  then show "configJSON_validate \<lparr>Profiles = [(name, Some pj)]\<rparr>
        = Some (ProfileError name SubvolumeMissing)"
    by (simp add: configJSON_validate_def is_panic_def)
  assume m: "(name, Some pj) \<in> set (Profiles cfg)"
  show c: "configJSON_validate cfg \<noteq> None"
  proof
    assume "configJSON_validate cfg = None"
    then have "profileJSON_validate (Some pj) = None"
      using m by (auto simp: configJSON_validate_def intro: validate_profiles_None)
    with v show False by simp
  qed
  show "loadConfig decode fs filename \<noteq> Inr cfg"
  proof
    assume "loadConfig decode fs filename = Inr cfg"
    from loadConfig_Inr[OF this] c show False by simp
  qed
qed

theorem load_requires_subvolume_witness:
  "loadConfig
      (\<lambda>f. Inr \<lparr>Profiles = [(''root'',
               Some \<lparr>Subvolume = Some ''/'', Storage = Some ''/snap/root'', Backup = None,
                     Buckets = [tier Hour 48]\<rparr>)]\<rparr>)
      \<lparr>cwd = ''/etc/snap'', files = [''/etc/snap/config.json'' \<mapsto> ''{}'']\<rparr> ''x''
    = Inr \<lparr>Profiles = [(''root'',
               Some \<lparr>Subvolume = Some ''/'', Storage = Some ''/snap/root'', Backup = None,
                     Buckets = [tier Hour 48]\<rparr>)]\<rparr>
   \<and> Subvolume \<lparr>Subvolume = None, Storage = Some ''/mnt/backup/snap/root'',
                Backup = Some ''root'', Buckets = [tier Hour 48]\<rparr> = None
   \<and> (''root-backup'',
        Some \<lparr>Subvolume = None, Storage = Some ''/mnt/backup/snap/root'',
              Backup = Some ''root'', Buckets = [tier Hour 48]\<rparr>)
       \<in> set (Profiles \<lparr>Profiles = [(''root'',
               Some \<lparr>Subvolume = Some ''/'', Storage = Some ''/snap/root'', Backup = None,
                     Buckets = [tier Hour 48]\<rparr>),
            (''root-backup'',
               Some \<lparr>Subvolume = None, Storage = Some ''/mnt/backup/snap/root'',
                     Backup = Some ''root'', Buckets = [tier Hour 48]\<rparr>)]\<rparr>)
   \<and> configJSON_validate \<lparr>Profiles = [(''root'',
               Some \<lparr>Subvolume = Some ''/'', Storage = Some ''/snap/root'', Backup = None,
                     Buckets = [tier Hour 48]\<rparr>),
            (''root-backup'',
               Some \<lparr>Subvolume = None, Storage = Some ''/mnt/backup/snap/root'',
                     Backup = Some ''root'', Buckets = [tier Hour 48]\<rparr>)]\<rparr> \<noteq> None
   \<and> profileJSON_validate
        (Some \<lparr>Subvolume = None, Storage = Some ''/mnt/backup/snap/root'',
               Backup = Some ''root'', Buckets = [tier Hour 48]\<rparr>) = Some SubvolumeMissing"
proof -
  define root where "root = \<lparr>Subvolume = Some ''/'', Storage = Some ''/snap/root'',
      Backup = None, Buckets = [tier Hour 48]\<rparr>"
  define bk where "bk = \<lparr>Subvolume = None, Storage = Some ''/mnt/backup/snap/root'',
      Backup = Some ''root'', Buckets = [tier Hour 48]\<rparr>"
  define cfg where "cfg = \<lparr>Profiles = [(''root'', Some root), (''root-backup'', Some bk)]\<rparr>"
  have l: "loadConfig (\<lambda>f. Inr \<lparr>Profiles = [(''root'', Some root)]\<rparr>)
      \<lparr>cwd = ''/etc/snap'', files = [''/etc/snap/config.json'' \<mapsto> ''{}'']\<rparr> ''x''
    = Inr \<lparr>Profiles = [(''root'', Some root)]\<rparr>"
    by (simp add: loadConfig_def os_Open_def configJSON_validate_def profileJSON_validate_def
        bucketJSON_validate_def tier_def root_def)
  have s: "Subvolume bk = None" by (simp add: bk_def)
  have m: "(''root-backup'', Some bk) \<in> set (Profiles cfg)" by (simp add: cfg_def)
  from load_requires_subvolume[of "\<lambda>f. Inr \<lparr>Profiles = [(''root'', Some root)]\<rparr>"
      "\<lparr>cwd = ''/etc/snap'', files = [''/etc/snap/config.json'' \<mapsto> ''{}'']\<rparr>" "''x''"
      cfg bk "''root-backup''"] s m
  have "configJSON_validate cfg \<noteq> None" "profileJSON_validate (Some bk) = Some SubvolumeMissing"
    by blast+
  with l s m show ?thesis
    unfolding cfg_def bk_def root_def by blast
qed

section \<open>Claims about the backup\<close>

lemma send_loop_eq:
  "fold (\<lambda>hs (parentPath, sendArgs).
             ((if created hs < created s then subvolPath hs else parentPath),
              sendArgs @ [''-c'', subvolPath hs])) bases (p, args)
   = ((if filter (\<lambda>hs. created hs < created s) bases = [] then p
       else subvolPath (last (filter (\<lambda>hs. created hs < created s) bases))),
      args @ concat (map (\<lambda>hs. [''-c'', subvolPath hs]) bases))"
  by (induction bases arbitrary: p args) auto

lemma snapsByCreated_fold:
  "fold (\<lambda>s m. m(created s \<mapsto> s)) xs m t =
     (if t \<in> created ` set xs then Some (last (filter (\<lambda>s. created s = t) xs)) else m t)"
proof (induction xs arbitrary: m)
  case Nil
  then show ?case by simp
next
  case (Cons a xs)
  have ne: "filter (\<lambda>s. created s = t) xs = [] \<longleftrightarrow> t \<notin> created ` set xs"
    by (auto simp: filter_empty_conv)
  show ?case
  proof (cases "t \<in> created ` set xs")
    case True
    with ne have "filter (\<lambda>s. created s = t) xs \<noteq> []" by simp
    with True Cons.IH[of "m(created a \<mapsto> a)"] show ?thesis by simp
  next
    case False
    with ne have "filter (\<lambda>s. created s = t) xs = []" by simp
    with False Cons.IH[of "m(created a \<mapsto> a)"] show ?thesis by auto
  qed
qed

lemma snapsByCreated_None: "snapsByCreated xs t = None \<longleftrightarrow> t \<notin> created ` set xs"
  by (simp add: snapsByCreated_def snapsByCreated_fold)

lemma snapsByCreated_created:
  assumes "t \<in> created ` set xs"
  shows "created (the (snapsByCreated xs t)) = t \<and> the (snapsByCreated xs t) \<in> set xs"
proof -
  from assms have ne: "filter (\<lambda>s. created s = t) xs \<noteq> []"
    by (auto simp: filter_empty_conv)
  then have "last (filter (\<lambda>s. created s = t) xs) \<in> set (filter (\<lambda>s. created s = t) xs)"
    by (rule last_in_set)
  with assms show ?thesis by (simp add: snapsByCreated_def snapsByCreated_fold)
qed

lemma concat_map_if:
  "concat (map (\<lambda>t. if P t then [f t] else []) ts) = map f (filter P ts)"
  by (induction ts) auto

lemma created_the_snapsByCreated:
  "set ts \<subseteq> created ` set src \<Longrightarrow> map (\<lambda>t. created (the (snapsByCreated src t))) ts = ts"
  by (induction ts) (auto simp: snapsByCreated_created)

lemma needS_created:
  "map created (needS src dst)
     = filter (\<lambda>t. t \<notin> created ` set dst) (sort (remdups (map created src)))"
proof -
  have "set (filter (\<lambda>t. t \<notin> created ` set dst) (sort (remdups (map created src))))
      \<subseteq> created ` set src" by auto
  from created_the_snapsByCreated[OF this] show ?thesis
    by (simp add: needS_def snapsByCreated_None concat_map_if comp_def)
qed

lemma haveS_created:
  "map created (haveS src dst)
     = filter (\<lambda>t. t \<in> created ` set dst) (sort (remdups (map created src)))"
proof -
  have "set (filter (\<lambda>t. t \<in> created ` set dst) (sort (remdups (map created src))))
      \<subseteq> created ` set src" by auto
  from created_the_snapsByCreated[OF this] show ?thesis
    by (simp add: haveS_def snapsByCreated_None concat_map_if comp_def)
qed

lemma backup_loop_log:
  assumes "backup_loop pipeline unwanted rest bases log = (err, log')"
  defines "ts \<equiv> filter (\<lambda>s. created s \<notin> set unwanted) rest"
  shows "\<exists>k \<le> length ts.
           log' = log @ map (\<lambda>i. \<lparr>t_snap = ts ! i, t_bases = bases @ take i ts\<rparr>) [0 ..< k] \<and>
           (case err of
              None \<Rightarrow> k = length ts
            | Some e \<Rightarrow> 0 < k \<and>
                (\<exists>e'. e = CannotBackup (path (ts ! (k - 1))) e' \<and>
                   pipeline (length log + k - 1)
                     (sendArgs (ts ! (k - 1)) (bases @ take (k - 1) ts)) = Some e'))"
  using assms(1) unfolding ts_def
proof (induction rest arbitrary: bases log)
  case Nil
  then show ?case by simp
next
  case (Cons s rest)
  define ts' where "ts' = filter (\<lambda>s. created s \<notin> set unwanted) rest"
  show ?case
  proof (cases "created s \<in> set unwanted")
    case True
    with Cons.prems have r: "backup_loop pipeline unwanted rest bases log = (err, log')" by simp
    have ts: "filter (\<lambda>s. created s \<notin> set unwanted) (s # rest)
        = filter (\<lambda>s. created s \<notin> set unwanted) rest"
      using True by simp
    show ?thesis unfolding ts by (rule Cons.IH[OF r])
  next
    case False
    then have ts: "filter (\<lambda>s. created s \<notin> set unwanted) (s # rest) = s # ts'"
      by (simp add: ts'_def)
    show ?thesis
    proof (cases "pipeline (length log) (sendArgs s bases)")
      case (Some e')
      with False Cons.prems have r: "err = Some (CannotBackup (path s) e')"
        "log' = log @ [\<lparr>t_snap = s, t_bases = bases\<rparr>]"
        by (simp_all add: backupSingle_def)
      show ?thesis unfolding ts
        by (rule exI[of _ 1]) (simp add: r Some)
    next
      case None
      with False Cons.prems
      have "backup_loop pipeline unwanted rest (bases @ [s]) (log @ [\<lparr>t_snap = s, t_bases = bases\<rparr>])
          = (err, log')"
        by (simp add: backupSingle_def)
      from Cons.IH[OF this, folded ts'_def] obtain k where k: "k \<le> length ts'"
        "log' = (log @ [\<lparr>t_snap = s, t_bases = bases\<rparr>]) @
           map (\<lambda>i. \<lparr>t_snap = ts' ! i, t_bases = (bases @ [s]) @ take i ts'\<rparr>) [0 ..< k]"
        "case err of
              None \<Rightarrow> k = length ts'
            | Some e \<Rightarrow> 0 < k \<and>
                (\<exists>e'. e = CannotBackup (path (ts' ! (k - 1))) e' \<and>
                   pipeline (length (log @ [\<lparr>t_snap = s, t_bases = bases\<rparr>]) + k - 1)
                     (sendArgs (ts' ! (k - 1)) ((bases @ [s]) @ take (k - 1) ts')) = Some e')"
        by blast
      have m: "map (\<lambda>i. \<lparr>t_snap = (s # ts') ! i, t_bases = bases @ take i (s # ts')\<rparr>) [0 ..< Suc k]
          = \<lparr>t_snap = s, t_bases = bases\<rparr> #
            map (\<lambda>i. \<lparr>t_snap = ts' ! i, t_bases = (bases @ [s]) @ take i ts'\<rparr>) [0 ..< k]"
        by (simp add: map_upt_Suc del: upt_Suc)
      have e: "case err of
              None \<Rightarrow> Suc k = length (s # ts')
            | Some e \<Rightarrow> 0 < Suc k \<and>
                (\<exists>e'. e = CannotBackup (path ((s # ts') ! (Suc k - 1))) e' \<and>
                   pipeline (length log + Suc k - 1)
                     (sendArgs ((s # ts') ! (Suc k - 1)) (bases @ take (Suc k - 1) (s # ts')))
                     = Some e')"
      proof (cases err)
        case None
        with k(3) show ?thesis by simp
      next
        case (Some e)
        with k(3) obtain e' where "0 < k" "e = CannotBackup (path (ts' ! (k - 1))) e'"
          "pipeline (length (log @ [\<lparr>t_snap = s, t_bases = bases\<rparr>]) + k - 1)
             (sendArgs (ts' ! (k - 1)) ((bases @ [s]) @ take (k - 1) ts')) = Some e'"
          by auto
        then show ?thesis
          by (cases k) (simp_all add: Some)
      qed
      show ?thesis unfolding ts
        by (rule exI[of _ "Suc k"]) (use k(1,2) m e in \<open>simp del: upt_Suc\<close>)
    qed
  qed
qed

text \<open>Every transfer of the loop but a failed last one has succeeded.\<close>

lemma backup_loop_succeeded:
  assumes "backup_loop pipeline unwanted rest bases log = (err, log')"
  shows "\<forall>i. length log + i + (if err = None then 0 else 1) < length log' \<longrightarrow>
           pipeline (length log + i)
             (sendArgs (filter (\<lambda>s. created s \<notin> set unwanted) rest ! i)
                (bases @ take i (filter (\<lambda>s. created s \<notin> set unwanted) rest))) = None"
  using assms
proof (induction rest arbitrary: bases log)
  case Nil
  then show ?case by simp
next
  case (Cons s rest)
  define ts' where "ts' = filter (\<lambda>s. created s \<notin> set unwanted) rest"
  show ?case
  proof (cases "created s \<in> set unwanted")
    case True
    with Cons.prems have r: "backup_loop pipeline unwanted rest bases log = (err, log')" by simp
    have ts: "filter (\<lambda>s. created s \<notin> set unwanted) (s # rest)
        = filter (\<lambda>s. created s \<notin> set unwanted) rest"
      using True by simp
    show ?thesis unfolding ts by (rule Cons.IH[OF r])
  next
    case False
    then have ts: "filter (\<lambda>s. created s \<notin> set unwanted) (s # rest) = s # ts'"
      by (simp add: ts'_def)
    show ?thesis
    proof (cases "pipeline (length log) (sendArgs s bases)")
      case (Some e')
      with False Cons.prems have r: "err = Some (CannotBackup (path s) e')"
        "log' = log @ [\<lparr>t_snap = s, t_bases = bases\<rparr>]"
        by (simp_all add: backupSingle_def)
      show ?thesis by (simp add: r)
    next
      case None
      with False Cons.prems
      have "backup_loop pipeline unwanted rest (bases @ [s]) (log @ [\<lparr>t_snap = s, t_bases = bases\<rparr>])
          = (err, log')"
        by (simp add: backupSingle_def)
      note ih = Cons.IH[OF this, folded ts'_def]
      show ?thesis unfolding ts
      proof (intro allI impI)
        fix i
        assume a: "length log + i + (if err = None then 0 else 1) < length log'"
        show "pipeline (length log + i) (sendArgs ((s # ts') ! i) (bases @ take i (s # ts'))) = None"
        proof (cases i)
          case 0
          with None show ?thesis by simp
        next
          case (Suc j)
          with a have "length (log @ [\<lparr>t_snap = s, t_bases = bases\<rparr>]) + j
              + (if err = None then 0 else 1) < length log'"
            by simp
          with ih have "pipeline (length (log @ [\<lparr>t_snap = s, t_bases = bases\<rparr>]) + j)
              (sendArgs (ts' ! j) ((bases @ [s]) @ take j ts')) = None"
            by blast
          then show ?thesis by (simp add: Suc)
        qed
      qed
    qed
  qed
qed

text \<open>
  C6, as the code has it. \<^verbatim>\<open>need\<close> holds the instants present at the source and absent
  from the destination. The run goes through \<open>toSend\<close>, the needed snapshots that the
  simulation on the destination's tiers does not evict, in ascending order of \<open>created\<close>,
  one transfer after the other, and the first transfer that fails ends it: the
  transfers attempted are those of the first \<open>k\<close> snapshots of \<open>toSend\<close>; when the run
  returns no error they are all of \<open>toSend\<close> and every one of them has succeeded; when
  it returns an error the last of them is the one that failed, with the error returned,
  and every one before it has succeeded. The bases of each transfer are the snapshots
  present on both sides, followed by the snapshots sent before it in this run.
\<close>

theorem backup_transfers:
  assumes "backup_snaps pipeline c src dst = (err, log, c')"
  shows "set (map created (needS src dst)) = created ` set src - created ` set dst \<and>
         sorted (map created (toSend c src dst)) \<and>
         distinct (map created (toSend c src dst)) \<and>
         (\<exists>k \<le> length (toSend c src dst).
            log = map (\<lambda>i. \<lparr>t_snap = toSend c src dst ! i,
                             t_bases = haveS src dst @ take i (toSend c src dst)\<rparr>) [0 ..< k] \<and>
            (case err of
               None \<Rightarrow> k = length (toSend c src dst)
             | Some e \<Rightarrow> 0 < k \<and>
                 (\<exists>e'. e = CannotBackup (path (toSend c src dst ! (k - 1))) e' \<and>
                    pipeline (k - 1)
                      (sendArgs (toSend c src dst ! (k - 1))
                         (haveS src dst @ take (k - 1) (toSend c src dst))) = Some e')) \<and>
            (\<forall>i < (case err of None \<Rightarrow> k | Some e \<Rightarrow> k - 1).
               pipeline i
                 (sendArgs (toSend c src dst ! i)
                    (haveS src dst @ take i (toSend c src dst))) = None))"
proof (intro conjI)
  show "set (map created (needS src dst)) = created ` set src - created ` set dst"
    by (auto simp: needS_created)
  have sd: "sorted (map created (needS src dst))" "distinct (map created (needS src dst))"
    by (simp_all add: needS_created sorted_wrt_filter)
  show "sorted (map created (toSend c src dst))"
    unfolding toSend_def using sd(1) by (rule sorted_filter)
  show "distinct (map created (toSend c src dst))"
    unfolding toSend_def using sd(2) by (rule distinct_map_filter)
  obtain c1 evicted where i: "cascade_insert c (dst @ needS src dst) = (c1, evicted)"
    by fastforce
  have ts: "toSend c src dst
      = filter (\<lambda>s. created s \<notin> set (map created evicted)) (needS src dst)"
    by (simp add: toSend_def i del: set_map)
  from i assms have l: "backup_loop pipeline (map created evicted) (needS src dst) (haveS src dst) []
      = (err, log)"
    by (simp add: backup_snaps_def Let_def split: prod.splits)
  from backup_loop_log[OF l, folded ts] obtain k where k: "k \<le> length (toSend c src dst)"
    "log = [] @ map (\<lambda>i. \<lparr>t_snap = toSend c src dst ! i,
                     t_bases = haveS src dst @ take i (toSend c src dst)\<rparr>) [0 ..< k]"
    "case err of
       None \<Rightarrow> k = length (toSend c src dst)
     | Some e \<Rightarrow> 0 < k \<and>
         (\<exists>e'. e = CannotBackup (path (toSend c src dst ! (k - 1))) e' \<and>
            pipeline (length ([] :: transfer list) + k - 1)
              (sendArgs (toSend c src dst ! (k - 1))
                 (haveS src dst @ take (k - 1) (toSend c src dst))) = Some e')"
    by blast
  have len: "length log = k" by (simp add: k(2))
  have ok: "\<forall>i < (case err of None \<Rightarrow> k | Some e \<Rightarrow> k - 1).
               pipeline i
                 (sendArgs (toSend c src dst ! i)
                    (haveS src dst @ take i (toSend c src dst))) = None"
  proof (intro allI impI)
    fix i assume a: "i < (case err of None \<Rightarrow> k | Some e \<Rightarrow> k - 1)"
    then have "length ([] :: transfer list) + i + (if err = None then 0 else 1) < length log"
      by (cases err) (simp_all add: len)
    with backup_loop_succeeded[OF l, folded ts]
    have "pipeline (length ([] :: transfer list) + i)
        (sendArgs (toSend c src dst ! i) (haveS src dst @ take i (toSend c src dst))) = None"
      by blast
    then show "pipeline i
        (sendArgs (toSend c src dst ! i) (haveS src dst @ take i (toSend c src dst))) = None"
      by simp
  qed
  have e: "case err of
               None \<Rightarrow> k = length (toSend c src dst)
             | Some e \<Rightarrow> 0 < k \<and>
                 (\<exists>e'. e = CannotBackup (path (toSend c src dst ! (k - 1))) e' \<and>
                    pipeline (k - 1)
                      (sendArgs (toSend c src dst ! (k - 1))
                         (haveS src dst @ take (k - 1) (toSend c src dst))) = Some e')"
    using k(3) by (cases err) simp_all
  have lg: "log = map (\<lambda>i. \<lparr>t_snap = toSend c src dst ! i,
                     t_bases = haveS src dst @ take i (toSend c src dst)\<rparr>) [0 ..< k]"
    using k(2) by simp
  from k(1) lg e ok
  show "\<exists>k \<le> length (toSend c src dst).
            log = map (\<lambda>i. \<lparr>t_snap = toSend c src dst ! i,
                             t_bases = haveS src dst @ take i (toSend c src dst)\<rparr>) [0 ..< k] \<and>
            (case err of
               None \<Rightarrow> k = length (toSend c src dst)
             | Some e \<Rightarrow> 0 < k \<and>
                 (\<exists>e'. e = CannotBackup (path (toSend c src dst ! (k - 1))) e' \<and>
                    pipeline (k - 1)
                      (sendArgs (toSend c src dst ! (k - 1))
                         (haveS src dst @ take (k - 1) (toSend c src dst))) = Some e')) \<and>
            (\<forall>i < (case err of None \<Rightarrow> k | Some e \<Rightarrow> k - 1).
               pipeline i
                 (sendArgs (toSend c src dst ! i)
                    (haveS src dst @ take i (toSend c src dst))) = None)"
    by blast
qed

theorem backup_transfers_witness:
  "backup_snaps second_fails
      [\<lparr>interval = Minute, snaps_array = [None, None, None, None, None], snaps_len = 0\<rparr>]
      [snap_at ''a'' 100, snap_at ''b'' 200, snap_at ''c'' 300, snap_at ''d'' 400]
      [backup_at ''a'' 100]
     = (Some (CannotBackup ''/snap/root/c'' (TransferError ''btrfs receive'')),
        [\<lparr>t_snap = snap_at ''b'' 200, t_bases = [snap_at ''a'' 100]\<rparr>,
         \<lparr>t_snap = snap_at ''c'' 300, t_bases = [snap_at ''a'' 100, snap_at ''b'' 200]\<rparr>],
        [\<lparr>interval = Minute, snaps_array = [None, None, None, None, None], snaps_len = 0\<rparr>])
   \<and> toSend
        [\<lparr>interval = Minute, snaps_array = [None, None, None, None, None], snaps_len = 0\<rparr>]
        [snap_at ''a'' 100, snap_at ''b'' 200, snap_at ''c'' 300, snap_at ''d'' 400]
        [backup_at ''a'' 100]
     = [snap_at ''b'' 200, snap_at ''c'' 300, snap_at ''d'' 400]
   \<and> haveS [snap_at ''a'' 100, snap_at ''b'' 200, snap_at ''c'' 300, snap_at ''d'' 400]
        [backup_at ''a'' 100]
     = [snap_at ''a'' 100]
   \<and> second_fails 0 (sendArgs (snap_at ''b'' 200) [snap_at ''a'' 100]) = None
   \<and> second_fails 1 (sendArgs (snap_at ''c'' 300) [snap_at ''a'' 100, snap_at ''b'' 200])
     = Some (TransferError ''btrfs receive'')"
proof -
  let ?c = "[\<lparr>interval = Minute, snaps_array = [None, None, None, None, None], snaps_len = 0\<rparr>]"
  let ?src = "[snap_at ''a'' 100, snap_at ''b'' 200, snap_at ''c'' 300, snap_at ''d'' 400]"
  let ?dst = "[backup_at ''a'' 100]"
  let ?ts = "[snap_at ''b'' 200, snap_at ''c'' 300, snap_at ''d'' 400]"
  let ?log = "[\<lparr>t_snap = snap_at ''b'' 200, t_bases = [snap_at ''a'' 100]\<rparr>,
         \<lparr>t_snap = snap_at ''c'' 300, t_bases = [snap_at ''a'' 100, snap_at ''b'' 200]\<rparr>]"
  have n: "needS ?src ?dst = ?ts"
    by (simp add: needS_def snapsByCreated_def snap_at_def backup_at_def Minute_def)
  have h: "haveS ?src ?dst = [snap_at ''a'' 100]"
    by (simp add: haveS_def snapsByCreated_def snap_at_def backup_at_def Minute_def)
  have i: "cascade_insert ?c (?dst @ ?ts)
      = ([\<lparr>interval = Minute,
            snaps_array = [Some (backup_at ''a'' 100), Some (snap_at ''b'' 200),
                           Some (snap_at ''c'' 300), Some (snap_at ''d'' 400), None],
            snaps_len = 4\<rparr>], [])"
    by (simp add: cascade_insert_def insert_loop_pure bucket_pass_def
        snap_at_def backup_at_def time_Sub_def minDuration_def maxDuration_def Minute_def)
  have r: "reset [\<lparr>interval = Minute,
            snaps_array = [Some (backup_at ''a'' 100), Some (snap_at ''b'' 200),
                           Some (snap_at ''c'' 300), Some (snap_at ''d'' 400), None],
            snaps_len = 4\<rparr>] = ?c"
    by (simp add: reset_def reset_bucket_def numeral_eq_Suc)
  have pc: "path (snap_at ''c'' 300) = ''/snap/root/c''" by (simp add: snap_at_def)
  have l: "backup_loop second_fails [] ?ts [snap_at ''a'' 100] []
      = (Some (CannotBackup ''/snap/root/c'' (TransferError ''btrfs receive'')), ?log)"
    by (simp add: backupSingle_def second_fails_def pc)
  have e: "backup_snaps second_fails ?c ?src ?dst
     = (Some (CannotBackup ''/snap/root/c'' (TransferError ''btrfs receive'')), ?log, ?c)"
    unfolding backup_snaps_def n h i Let_def prod.case r list.map l ..
  have t: "toSend ?c ?src ?dst = ?ts"
    unfolding toSend_def n i by simp
  from backup_transfers[OF e, THEN conjunct2, THEN conjunct2, THEN conjunct2,
      unfolded t h option.case]
  obtain k where kk: "k \<le> length ?ts \<and>
      ?log = map (\<lambda>i. \<lparr>t_snap = ?ts ! i,
                     t_bases = [snap_at ''a'' 100] @ take i ?ts\<rparr>) [0 ..< k] \<and>
      (0 < k \<and>
       (\<exists>e'. CannotBackup ''/snap/root/c'' (TransferError ''btrfs receive'')
               = CannotBackup (path (?ts ! (k - 1))) e' \<and>
           second_fails (k - 1)
             (sendArgs (?ts ! (k - 1)) ([snap_at ''a'' 100] @ take (k - 1) ?ts)) = Some e')) \<and>
      (\<forall>i < k - 1. second_fails i
             (sendArgs (?ts ! i) ([snap_at ''a'' 100] @ take i ?ts)) = None)"
    by (rule exE)
  note k = kk[THEN conjunct2, THEN conjunct1]
  note f = kk[THEN conjunct2, THEN conjunct2, THEN conjunct1, THEN conjunct2]
  note s = kk[THEN conjunct2, THEN conjunct2, THEN conjunct2]
  from arg_cong[OF k, of length] have k2: "k = 2" by simp
  from s have p0: "second_fails 0 (sendArgs (snap_at ''b'' 200) [snap_at ''a'' 100]) = None"
    by (simp add: k2)
  from f have p1: "second_fails 1
      (sendArgs (snap_at ''c'' 300) [snap_at ''a'' 100, snap_at ''b'' 200])
     = Some (TransferError ''btrfs receive'')"
    by (simp add: k2 pc)
  from e t h p0 p1 show ?thesis by blast
qed

text \<open>
  C6 as stated fails when a transfer fails. Two snapshots are needed and the
  simulation evicts neither; the transfer of the first one fails and the run returns its
  error without attempting the transfer of the second one.
\<close>

theorem failed_transfer_ends_run:
  "toSend [\<lparr>interval = Minute, snaps_array = [None, None, None], snaps_len = 0\<rparr>]
      [snap_at ''a'' 100, snap_at ''b'' 200] []
     = [snap_at ''a'' 100, snap_at ''b'' 200]
   \<and> backup_snaps (\<lambda>k args. Some (TransferError ''btrfs send''))
      [\<lparr>interval = Minute, snaps_array = [None, None, None], snaps_len = 0\<rparr>]
      [snap_at ''a'' 100, snap_at ''b'' 200] []
     = (Some (CannotBackup ''/snap/root/a'' (TransferError ''btrfs send'')),
        [\<lparr>t_snap = snap_at ''a'' 100, t_bases = []\<rparr>],
        [\<lparr>interval = Minute, snaps_array = [None, None, None], snaps_len = 0\<rparr>])"
  by (simp add: toSend_def backup_snaps_def needS_def haveS_def snapsByCreated_def
      backupSingle_def cascade_insert_def insert_loop_pure bucket_pass_def reset_def
      reset_bucket_def snap_at_def time_Sub_def minDuration_def maxDuration_def Minute_def)

text \<open>
  C4. The parent that \<^verbatim>\<open>backupSingle\<close> passes with \<^verbatim>\<open>-p\<close> is the base that comes last in
  the slice among those created before the snapshot, and every base is passed with
  \<^verbatim>\<open>-c\<close>. \<^verbatim>\<open>backup\<close> sorts the slice once and then appends each snapshot it has sent, so
  the last base need not be the most recent one. The source holds snapshots of minutes
  100, 200, 300 and 400 and the destination those of minutes 100 and 300: the run sends
  the snapshot of minute 200 and then that of minute 400, whose bases are in the order
  100, 300, 200 and whose parent is the snapshot of minute 200, not that of minute 300.
\<close>

theorem parent_is_last_older_base:
  "parentPath s bases
     = (if filter (\<lambda>hs. created hs < created s) bases = [] then []
        else subvolPath (last (filter (\<lambda>hs. created hs < created s) bases)))
   \<and> sendArgs s bases
     = [''send''] @ concat (map (\<lambda>hs. [''-c'', subvolPath hs]) bases) @
       (if parentPath s bases = [] then [] else [''-p'', parentPath s bases]) @ [subvolPath s]
   \<and> backup_snaps (\<lambda>k args. None)
        [\<lparr>interval = Minute, snaps_array = [None, None, None, None, None], snaps_len = 0\<rparr>]
        [snap_at ''a'' 100, snap_at ''b'' 200, snap_at ''c'' 300, snap_at ''d'' 400]
        [backup_at ''a'' 100, backup_at ''c'' 300]
     = (None,
        [\<lparr>t_snap = snap_at ''b'' 200, t_bases = [snap_at ''a'' 100, snap_at ''c'' 300]\<rparr>,
         \<lparr>t_snap = snap_at ''d'' 400,
          t_bases = [snap_at ''a'' 100, snap_at ''c'' 300, snap_at ''b'' 200]\<rparr>],
        [\<lparr>interval = Minute, snaps_array = [None, None, None, None, None], snaps_len = 0\<rparr>])
   \<and> sendArgs (snap_at ''d'' 400) [snap_at ''a'' 100, snap_at ''c'' 300, snap_at ''b'' 200]
     = [''send'', ''-c'', ''/snap/root/a/snapshot'', ''-c'', ''/snap/root/c/snapshot'',
        ''-c'', ''/snap/root/b/snapshot'', ''-p'', ''/snap/root/b/snapshot'',
        ''/snap/root/d/snapshot'']"
proof (intro conjI)
  show p: "parentPath s bases
     = (if filter (\<lambda>hs. created hs < created s) bases = [] then []
        else subvolPath (last (filter (\<lambda>hs. created hs < created s) bases)))"
    by (simp add: parentPath_def send_loop_def send_loop_eq)
  show "sendArgs s bases
     = [''send''] @ concat (map (\<lambda>hs. [''-c'', subvolPath hs]) bases) @
       (if parentPath s bases = [] then [] else [''-p'', parentPath s bases]) @ [subvolPath s]"
    by (simp add: sendArgs_def parentPath_def send_loop_def send_loop_eq)
  have n: "needS [snap_at ''a'' 100, snap_at ''b'' 200, snap_at ''c'' 300, snap_at ''d'' 400]
             [backup_at ''a'' 100, backup_at ''c'' 300]
           = [snap_at ''b'' 200, snap_at ''d'' 400]"
    by (simp add: needS_def snapsByCreated_def snap_at_def backup_at_def Minute_def)
  have h: "haveS [snap_at ''a'' 100, snap_at ''b'' 200, snap_at ''c'' 300, snap_at ''d'' 400]
             [backup_at ''a'' 100, backup_at ''c'' 300]
           = [snap_at ''a'' 100, snap_at ''c'' 300]"
    by (simp add: haveS_def snapsByCreated_def snap_at_def backup_at_def Minute_def)
  have i: "cascade_insert
        [\<lparr>interval = Minute, snaps_array = [None, None, None, None, None], snaps_len = 0\<rparr>]
        ([backup_at ''a'' 100, backup_at ''c'' 300] @ [snap_at ''b'' 200, snap_at ''d'' 400])
      = ([\<lparr>interval = Minute,
            snaps_array = [Some (backup_at ''a'' 100), Some (snap_at ''b'' 200),
                           Some (backup_at ''c'' 300), Some (snap_at ''d'' 400), None],
            snaps_len = 4\<rparr>], [])"
    by (simp add: cascade_insert_def insert_loop_pure bucket_pass_def
        snap_at_def backup_at_def time_Sub_def minDuration_def maxDuration_def Minute_def)
  have r: "reset [\<lparr>interval = Minute,
            snaps_array = [Some (backup_at ''a'' 100), Some (snap_at ''b'' 200),
                           Some (backup_at ''c'' 300), Some (snap_at ''d'' 400), None],
            snaps_len = 4\<rparr>]
      = [\<lparr>interval = Minute, snaps_array = [None, None, None, None, None], snaps_len = 0\<rparr>]"
    by (simp add: reset_def reset_bucket_def numeral_eq_Suc)
  have l: "backup_loop (\<lambda>k args. None) [] [snap_at ''b'' 200, snap_at ''d'' 400]
        [snap_at ''a'' 100, snap_at ''c'' 300] []
      = (None,
        [\<lparr>t_snap = snap_at ''b'' 200, t_bases = [snap_at ''a'' 100, snap_at ''c'' 300]\<rparr>,
         \<lparr>t_snap = snap_at ''d'' 400,
          t_bases = [snap_at ''a'' 100, snap_at ''c'' 300, snap_at ''b'' 200]\<rparr>])"
    by (simp add: backupSingle_def)
  show "backup_snaps (\<lambda>k args. None)
        [\<lparr>interval = Minute, snaps_array = [None, None, None, None, None], snaps_len = 0\<rparr>]
        [snap_at ''a'' 100, snap_at ''b'' 200, snap_at ''c'' 300, snap_at ''d'' 400]
        [backup_at ''a'' 100, backup_at ''c'' 300]
     = (None,
        [\<lparr>t_snap = snap_at ''b'' 200, t_bases = [snap_at ''a'' 100, snap_at ''c'' 300]\<rparr>,
         \<lparr>t_snap = snap_at ''d'' 400,
          t_bases = [snap_at ''a'' 100, snap_at ''c'' 300, snap_at ''b'' 200]\<rparr>],
        [\<lparr>interval = Minute, snaps_array = [None, None, None, None, None], snaps_len = 0\<rparr>])"
    unfolding backup_snaps_def n h i Let_def prod.case r list.map l ..
  show "sendArgs (snap_at ''d'' 400) [snap_at ''a'' 100, snap_at ''c'' 300, snap_at ''b'' 200]
     = [''send'', ''-c'', ''/snap/root/a/snapshot'', ''-c'', ''/snap/root/c/snapshot'',
        ''-c'', ''/snap/root/b/snapshot'', ''-p'', ''/snap/root/b/snapshot'',
        ''/snap/root/d/snapshot'']"
    by (simp add: sendArgs_def send_loop_def snap_at_def Minute_def)
qed

end
